theory Spec2Isabelle
  imports Complex_Main "HOL-Library.Product_Lexorder" "HOL-Library.AList"
    "HOL-Library.Sublist"
begin

section \<open>DateAligner: \<open>find_closest_trading_day\<close>\<close>

text \<open>
  The aligner works on any linearly ordered type of dates. Its lower bound \<open>start_index\<close> is
  the row counter of the caller, a natural number, so \<open>dates_array[start_index:]\<close> is
  \<open>drop start_index dates_array\<close>.

  \<open>np.where(mask)[0]\<close>: the ascending positions at which the mask holds.
\<close>

definition np_where :: "('a \<Rightarrow> bool) \<Rightarrow> 'a list \<Rightarrow> nat list" where
  "np_where P xs = filter (\<lambda>k. P (xs ! k)) [0..<length xs]"

definition find_closest_trading_day :: "'a::linorder list \<Rightarrow> 'a \<Rightarrow> nat \<Rightarrow> nat option" where
  "find_closest_trading_day dates_array target_date start_index =
     (let available_dates = drop start_index dates_array in
      if length available_dates = 0 then None
      else if target_date > last available_dates then None
      else
        let exact_matches = np_where (\<lambda>d. d = target_date) available_dates in
        if length exact_matches > 0 then Some (start_index + hd exact_matches)
        else
          let past_dates_idx = np_where (\<lambda>d. d < target_date) available_dates in
          if length past_dates_idx > 0 then Some (start_index + last past_dates_idx)
          else None)"

section \<open>Timestamps and calendar arithmetic\<close>

text \<open>
  A pandas \<open>Timestamp\<close> is modelled by its calendar fields: year, month, day and the time of
  day in nanoseconds since midnight. The lexicographic order on these tuples is the
  chronological order. Missing dates (\<open>NaT\<close>) are outside the model.
\<close>

type_synonym timestamp = "nat \<times> nat \<times> nat \<times> nat"

definition time_of_day :: "timestamp \<Rightarrow> nat" where
  "time_of_day ts = (case ts of (y, m, d, tod) \<Rightarrow> tod)"

definition is_leap_year :: "nat \<Rightarrow> bool" where
  "is_leap_year y \<longleftrightarrow> y mod 4 = 0 \<and> (y mod 100 \<noteq> 0 \<or> y mod 400 = 0)"

definition days_in_month :: "nat \<Rightarrow> nat \<Rightarrow> nat" where
  "days_in_month y m =
     (if m = 2 then (if is_leap_year y then 29 else 28)
      else if m = 4 \<or> m = 6 \<or> m = 9 \<or> m = 11 then 30 else 31)"

text \<open>
  \<open>ts + pd.DateOffset(years=years)\<close>: the year is shifted, month and time of day are kept,
  and the day is clamped to the length of the month (29 February becomes 28 February in a
  year that is not a leap year).
\<close>

definition date_offset_years :: "nat \<Rightarrow> timestamp \<Rightarrow> timestamp" where
  "date_offset_years years ts =
     (case ts of (y, m, d, tod) \<Rightarrow>
        (y + years, m, min d (days_in_month (y + years) m), tod))"

text \<open>Days since 1970-01-01 of a date of the proleptic Gregorian calendar.\<close>

definition days_from_civil :: "nat \<Rightarrow> nat \<Rightarrow> nat \<Rightarrow> int" where
  "days_from_civil y m d =
     (let y' = int y - (if m \<le> 2 then 1 else 0);
          era = y' div 400;
          yoe = y' mod 400;
          mp = (int m + 9) mod 12;
          doy = (153 * mp + 2) div 5 + int d - 1;
          doe = yoe * 365 + yoe div 4 - yoe div 100 + doy
      in era * 146097 + doe - 719468)"

definition ns_per_day :: int where
  "ns_per_day = 86400000000000"

text \<open>\<open>Timestamp.value\<close>: nanoseconds since the epoch.\<close>

definition timestamp_value :: "timestamp \<Rightarrow> int" where
  "timestamp_value ts =
     (case ts of (y, m, d, tod) \<Rightarrow> days_from_civil y m d * ns_per_day + int tod)"

text \<open>\<open>(later - earlier).days\<close>: whole days of the difference, rounded towards minus infinity.\<close>

definition timedelta_days :: "timestamp \<Rightarrow> timestamp \<Rightarrow> int" where
  "timedelta_days later earlier =
     (timestamp_value later - timestamp_value earlier) div ns_per_day"

section \<open>Text rendering\<close>

definition digit_char :: "nat \<Rightarrow> char" where
  "digit_char d = ''0123456789'' ! d"

fun show_nat :: "nat \<Rightarrow> string" where
  "show_nat n = (if n < 10 then [digit_char n] else show_nat (n div 10) @ [digit_char (n mod 10)])"

declare show_nat.simps [simp del]

definition zero_pad :: "nat \<Rightarrow> string \<Rightarrow> string" where
  "zero_pad w s = replicate (w - length s) (CHR ''0'') @ s"

text \<open>\<open>ts.strftime('%m/%d/%Y')\<close>.\<close>

definition strftime_mdY :: "timestamp \<Rightarrow> string" where
  "strftime_mdY ts =
     (case ts of (y, m, d, tod) \<Rightarrow>
        zero_pad 2 (show_nat m) @ ''/'' @ zero_pad 2 (show_nat d) @ ''/'' @ zero_pad 4 (show_nat y))"

text \<open>The column headers \<open>f'To ({years}Yr)'\<close> and \<open>f" {column} ({years}Yr)"\<close>.\<close>

definition to_header :: "nat \<Rightarrow> string" where
  "to_header years = ''To ('' @ show_nat years @ ''Yr)''"

definition return_header :: "string \<Rightarrow> nat \<Rightarrow> string" where
  "return_header column years = '' '' @ column @ '' ('' @ show_nat years @ ''Yr)''"

section \<open>Numeric cells\<close>

text \<open>
  A \<open>float64\<close> cell is either missing (\<open>NaN\<close>) or a number. Numbers are idealised as reals:
  rounding error, overflow and infinities of IEEE arithmetic are outside the model. The
  code formats the \<open>float64\<close> result of the annualisation, the model its exact real value;
  the two print the same digits unless the exact value lies within rounding error of a
  two-decimal tie. Only the worked Scenario A below relies on printed digits, and its
  values are far from a tie.
\<close>

datatype float64 = NaN | Val real

text \<open>
  \<open>base ** exponent\<close> on \<open>float64\<close>, for the positive exponents the calculator passes: a
  negative base with a fractional exponent gives \<open>nan\<close>.
\<close>

definition np_power :: "real \<Rightarrow> real \<Rightarrow> float64" where
  "np_power base exponent =
     (if 0 \<le> base then Val (base powr exponent)
      else if exponent \<in> \<int> then Val (base powi \<lfloor>exponent\<rfloor>)
      else NaN)"

definition round_half_even :: "real \<Rightarrow> int" where
  "round_half_even x =
     (let f = \<lfloor>x\<rfloor>; r = x - of_int f
      in if r < 1 / 2 then f else if 1 / 2 < r then f + 1 else if even f then f else f + 1)"

text \<open>\<open>f"{x:.2f}"\<close>: two decimals, ties to even, and a sign for negative numbers.\<close>

definition format_2f :: "real \<Rightarrow> string" where
  "format_2f x =
     (let h = nat (round_half_even (\<bar>x\<bar> * 100))
      in (if x < 0 then ''-'' else '''') @ show_nat (h div 100) @ ''.'' @
         zero_pad 2 (show_nat (h mod 100)))"

text \<open>\<open>f"{annualized_return:.2f}%"\<close>.\<close>

fun format_pct :: "float64 \<Rightarrow> string" where
  "format_pct NaN = ''nan%''"
| "format_pct (Val x) = format_2f x @ ''%''"

text \<open>
  The computation of \<open>annualized_return\<close> from \<open>total_return\<close> and \<open>actual_years\<close>:
  \<open>(((1 + total_return) ** (1 / actual_years)) - 1) * 100\<close>.
\<close>

definition annualized_return :: "real \<Rightarrow> real \<Rightarrow> float64" where
  "annualized_return total_return actual_years =
     (case np_power (1 + total_return) (1 / actual_years) of
        NaN \<Rightarrow> NaN
      | Val p \<Rightarrow> Val ((p - 1) * 100))"



section \<open>PeriodReturnCalculator: \<open>calculate_returns_optimized\<close>\<close>

datatype error = KeyError | DateParseError | IndexError

text \<open>
  A cell of the \<open>Date\<close> column is text still to be parsed, or already a timestamp.
  \<open>pd.to_datetime\<close> keeps a timestamp and parses text with the library's parser, a parameter
  of the model that yields \<open>None\<close> where the library raises.
\<close>

datatype date_cell = Text string | Stamp timestamp

fun to_datetime_cell :: "(string \<Rightarrow> timestamp option) \<Rightarrow> date_cell \<Rightarrow> timestamp option" where
  "to_datetime_cell to_datetime (Stamp t) = Some t"
| "to_datetime_cell to_datetime (Text s) = to_datetime s"

text \<open>
  The input table: the column names in order (\<open>df.columns\<close>), and per row the \<open>Date\<close> cell
  and the text (\<open>astype(str)\<close>) of the cell under each other column name.
\<close>

record dataframe =
  columns :: "string list"
  rows :: "(date_cell \<times> (string \<Rightarrow> string)) list"

text \<open>A result frame: named columns of text, in insertion order.\<close>

type_synonym result_frame = "(string \<times> string list) list"

definition len_frame :: "result_frame \<Rightarrow> nat" where
  "len_frame r = (case r of [] \<Rightarrow> 0 | (name, col) # rest \<Rightarrow> length col)"

text \<open>\<open>xs[mask]\<close>: the entries at which the boolean mask holds.\<close>

definition boolean_mask :: "bool list \<Rightarrow> 'a list \<Rightarrow> 'a list" where
  "boolean_mask keep xs = map snd (filter fst (zip keep xs))"

text \<open>\<open>.str.replace(',', '')\<close>.\<close>

definition strip_commas :: "string \<Rightarrow> string" where
  "strip_commas s = filter (\<lambda>c. c \<noteq> CHR '','') s"

text \<open>
  The text of the return cell of a matched row, from its two dates and its two values
  (source lines 99 to 115).
\<close>

definition annualized_cell :: "nat \<Rightarrow> timestamp \<Rightarrow> timestamp \<Rightarrow> float64 \<Rightarrow> float64 \<Rightarrow> string" where
  "annualized_cell years date_from date_to start_val end_val =
     (case (start_val, end_val) of
        (Val s, Val e) \<Rightarrow>
          if s \<noteq> 0 then
            let total_return = e / s - 1;
                actual_days = timedelta_days date_to date_from
            in if actual_days > 0 then
                 let actual_years = real_of_int actual_days / 365.25
                 in if actual_years \<ge> real years * 0.5
                    then format_pct (annualized_return total_return actual_years)
                    else ''''
               else ''''
          else ''''
      | _ \<Rightarrow> '''')"

text \<open>\<open>pd.notna\<close>.\<close>

definition notna :: "float64 \<Rightarrow> bool" where
  "notna x \<longleftrightarrow> x \<noteq> NaN"

text \<open>
  One iteration of the inner loop. \<open>iloc\<close> raises \<open>IndexError\<close> out of range; the two
  values are read first, the two dates only when both values are present and the start
  value is not zero.
\<close>

definition row_return ::
  "nat \<Rightarrow> timestamp list \<Rightarrow> float64 list \<Rightarrow> nat \<Rightarrow> nat option \<Rightarrow> error + string" where
  "row_return years dates series i to_idx_opt =
     (case to_idx_opt of
        None \<Rightarrow> Inr ''''
      | Some to_idx \<Rightarrow>
          if i < length series \<and> to_idx < length series then
            let start_val = series ! i; end_val = series ! to_idx
            in if notna start_val \<and> notna end_val \<and> start_val \<noteq> Val 0 then
                 if to_idx < length dates \<and> i < length dates
                 then Inr (annualized_cell years (dates ! i) (dates ! to_idx) start_val end_val)
                 else Inl IndexError
               else Inr ''''
          else Inl IndexError)"

fun returns_loop ::
  "nat \<Rightarrow> timestamp list \<Rightarrow> float64 list \<Rightarrow> (nat \<times> nat option) list \<Rightarrow> error + string list" where
  "returns_loop years dates series [] = Inr []"
| "returns_loop years dates series ((i, to_idx) # rest) =
     (case row_return years dates series i to_idx of
        Inl e \<Rightarrow> Inl e
      | Inr cell \<Rightarrow>
          (case returns_loop years dates series rest of
             Inl e \<Rightarrow> Inl e
           | Inr cells \<Rightarrow> Inr (cell # cells)))"

text \<open>
  The \<open>try\<close> block for one column (source lines 88 to 123): the column text is cleaned and
  coerced by \<open>pd.to_numeric(..., errors='coerce')\<close>, a parameter of the model that yields
  \<open>NaN\<close> for text that is not numeric; an exception in the block gives an all-empty column
  of the length of the result frame.
\<close>

definition column_returns ::
  "(string \<Rightarrow> float64) \<Rightarrow> nat \<Rightarrow> timestamp list \<Rightarrow> nat option list \<Rightarrow> string list \<Rightarrow> nat \<Rightarrow>
     string list" where
  "column_returns to_numeric years dates to_indices column_text len_result =
     (let series = map (\<lambda>s. to_numeric (strip_commas s)) column_text
      in case returns_loop years dates series (enumerate 0 to_indices) of
           Inr returns \<Rightarrow> returns
         | Inl e \<Rightarrow> replicate len_result '''')"

text \<open>The alignment pass (source lines 64 to 71).\<close>

definition to_indices :: "nat \<Rightarrow> timestamp list \<Rightarrow> nat option list" where
  "to_indices years dates_array =
     (let target_dates = map (date_offset_years years) dates_array
      in map (\<lambda>(i, target_date). find_closest_trading_day dates_array target_date i)
           (enumerate 0 target_dates))"

text \<open>The \<open>To\<close> column (source lines 73 to 79).\<close>

fun to_dates_loop :: "timestamp list \<Rightarrow> nat option list \<Rightarrow> error + string list" where
  "to_dates_loop dates [] = Inr []"
| "to_dates_loop dates (None # rest) =
     (case to_dates_loop dates rest of Inl e \<Rightarrow> Inl e | Inr ss \<Rightarrow> Inr ('''' # ss))"
| "to_dates_loop dates (Some idx # rest) =
     (if idx < length dates
      then (case to_dates_loop dates rest of
              Inl e \<Rightarrow> Inl e
            | Inr ss \<Rightarrow> Inr (strftime_mdY (dates ! idx) # ss))
      else Inl IndexError)"

text \<open>
  The outcome of one call: the caller's table object after the call (its \<open>Date\<close> column is
  converted in place), the result frame, and the count of the "Removed ... rows" message
  when it is printed.
\<close>

record period_outcome =
  df_after :: dataframe
  result_df :: result_frame
  removed_rows :: "nat option"

text \<open>
  \<open>df.sort_values('Date').reset_index(drop=True)\<close> on rows whose date is parsed. The sort
  is modelled as a stable sort; pandas' default sort may order rows of equal date
  differently.
\<close>

definition sort_values_Date :: "(timestamp \<times> 'a) list \<Rightarrow> (timestamp \<times> 'a) list" where
  "sort_values_Date parsed_rows = sort_key fst parsed_rows"

text \<open>
  Source lines 49 to 131, on the rows sorted by date. The warning about the span of the data
  (source lines 52 to 58) only prints and is left out.
\<close>

definition period_result ::
  "(string \<Rightarrow> float64) \<Rightarrow> string list \<Rightarrow> (timestamp \<times> (string \<Rightarrow> string)) list \<Rightarrow> nat \<Rightarrow>
     error + (result_frame \<times> nat option)" where
  "period_result to_numeric column_names sorted_rows years =
     (let dates_array = map fst sorted_rows;
          result0 = AList.update ''From'' (map strftime_mdY dates_array) [];
          idxs = to_indices years dates_array
      in case to_dates_loop dates_array idxs of
           Inl e \<Rightarrow> Inl e
         | Inr to_dates \<Rightarrow>
             let result1 = AList.update (to_header years) to_dates result0;
                 result2 =
                   fold (\<lambda>column r.
                          if column = ''Date'' then r
                          else AList.update (return_header column years)
                                 (column_returns to_numeric years dates_array idxs
                                    (map (\<lambda>row. snd row column) sorted_rows) (len_frame r)) r)
                     column_names result1
             in case map_of result2 (to_header years) of
                  None \<Rightarrow> Inl KeyError
                | Some to_col \<Rightarrow>
                    let valid_rows = map (\<lambda>s. s \<noteq> '''') to_col
                    in if list_all id valid_rows then Inr (result2, None)
                       else Inr (map (\<lambda>(name, col). (name, boolean_mask valid_rows col)) result2,
                                 Some (len_frame result2 - length (filter id valid_rows))))"

definition calculate_returns_optimized ::
  "(string \<Rightarrow> timestamp option) \<Rightarrow> (string \<Rightarrow> float64) \<Rightarrow> dataframe \<Rightarrow> nat \<Rightarrow>
     error + period_outcome" where
  "calculate_returns_optimized to_datetime to_numeric df years =
     (if ''Date'' \<notin> set (columns df) then Inl KeyError
      else case those (map (\<lambda>row. to_datetime_cell to_datetime (fst row)) (rows df)) of
             None \<Rightarrow> Inl DateParseError
           | Some stamps \<Rightarrow>
               let df1 = df\<lparr>rows := map2 (\<lambda>t row. (Stamp t, snd row)) stamps (rows df)\<rparr>;
                   sorted_rows = sort_values_Date (zip stamps (map snd (rows df)))
               in case period_result to_numeric (columns df) sorted_rows years of
                    Inl e \<Rightarrow> Inl e
                  | Inr (result, removed) \<Rightarrow>
                      Inr \<lparr>df_after = df1, result_df = result, removed_rows = removed\<rparr>)"

section \<open>Closed forms of the loops\<close>

text \<open>
  What the loops compute when no \<open>iloc\<close> is out of range, as plain maps. They are proved
  equal to the loops and serve to state the results.
\<close>

definition aligned_to_dates :: "timestamp list \<Rightarrow> nat option list \<Rightarrow> string list" where
  "aligned_to_dates dates idxs =
     map (\<lambda>t. case t of None \<Rightarrow> '''' | Some j \<Rightarrow> strftime_mdY (dates ! j)) idxs"

definition aligned_returns ::
  "(string \<Rightarrow> float64) \<Rightarrow> nat \<Rightarrow> timestamp list \<Rightarrow> nat option list \<Rightarrow> string list \<Rightarrow> string list" where
  "aligned_returns to_numeric years dates idxs column_text =
     map (\<lambda>p. case snd p of
                None \<Rightarrow> ''''
              | Some j \<Rightarrow>
                  annualized_cell years (dates ! fst p) (dates ! j)
                    (to_numeric (strip_commas (column_text ! fst p)))
                    (to_numeric (strip_commas (column_text ! j))))
       (enumerate 0 idxs)"

text \<open>The result frame before rows are dropped, and the rows that are kept.\<close>

definition unfiltered_frame ::
  "(string \<Rightarrow> float64) \<Rightarrow> string list \<Rightarrow> (timestamp \<times> (string \<Rightarrow> string)) list \<Rightarrow> nat \<Rightarrow>
     result_frame" where
  "unfiltered_frame to_numeric column_names sorted_rows years =
     (let dates_array = map fst sorted_rows;
          idxs = to_indices years dates_array
      in fold (\<lambda>column r.
                 if column = ''Date'' then r
                 else AList.update (return_header column years)
                        (aligned_returns to_numeric years dates_array idxs
                           (map (\<lambda>row. snd row column) sorted_rows)) r)
           column_names
           [(''From'', map strftime_mdY dates_array),
            (to_header years, aligned_to_dates dates_array idxs)])"

definition matched_rows :: "nat \<Rightarrow> timestamp list \<Rightarrow> bool list" where
  "matched_rows years dates_array = map (\<lambda>t. t \<noteq> None) (to_indices years dates_array)"

section \<open>Worked inputs\<close>

text \<open>
  A coercion for plain unsigned decimal text, on which it agrees with \<open>pd.to_numeric\<close>;
  any other text is taken as not numeric. It instantiates the coercion parameter in the
  worked examples.
\<close>

definition digit_of :: "char \<Rightarrow> nat option" where
  "digit_of c = (let k = (of_char c :: nat) in if 48 \<le> k \<and> k \<le> 57 then Some (k - 48) else None)"

definition to_numeric_digits :: "string \<Rightarrow> float64" where
  "to_numeric_digits s =
     (case those (map digit_of s) of
        None \<Rightarrow> NaN
      | Some ds \<Rightarrow> if ds = [] then NaN else Val (real (foldl (\<lambda>n d. 10 * n + d) 0 ds)))"


text \<open>
  The worked tables hold timestamps already, so no text is parsed; the date parser of the
  examples rejects every text.
\<close>

definition no_text_dates :: "string \<Rightarrow> timestamp option" where
  "no_text_dates s = None"

text \<open>Scenario A of the specification: three yearly observations of one series.\<close>

definition scenario_A :: dataframe where
  "scenario_A =
     \<lparr>columns = [''Date'', ''Series''],
      rows = [(Stamp (2020, 1, 1, 0), (\<lambda>c. ''100'')),
              (Stamp (2021, 1, 1, 0), (\<lambda>c. ''110'')),
              (Stamp (2022, 1, 1, 0), (\<lambda>c. ''121''))]\<rparr>"

text \<open>
  Scenario A with a further column \<open>Note\<close> that holds no number, and the same table with
  numbers in that column.
\<close>

definition scenario_note :: dataframe where
  "scenario_note =
     \<lparr>columns = [''Date'', ''Series'', ''Note''],
      rows = [(Stamp (2020, 1, 1, 0), (\<lambda>c. if c = ''Note'' then ''n/a'' else ''100'')),
              (Stamp (2021, 1, 1, 0), (\<lambda>c. if c = ''Note'' then ''n/a'' else ''110'')),
              (Stamp (2022, 1, 1, 0), (\<lambda>c. if c = ''Note'' then ''n/a'' else ''121''))]\<rparr>"

definition scenario_note_filled :: dataframe where
  "scenario_note_filled =
     \<lparr>columns = [''Date'', ''Series'', ''Note''],
      rows = [(Stamp (2020, 1, 1, 0), (\<lambda>c. ''100'')),
              (Stamp (2021, 1, 1, 0), (\<lambda>c. ''110'')),
              (Stamp (2022, 1, 1, 0), (\<lambda>c. ''121''))]\<rparr>"

text \<open>
  Four intraday observations away from any leap day: 1 January 2020 at 01:00 and 02:00, and
  1 January 2021 at 01:00 and 02:00.
\<close>

definition hourly_dates :: "timestamp list" where
  "hourly_dates =
     [(2020, 1, 1, 3600000000000), (2020, 1, 1, 7200000000000),
      (2021, 1, 1, 3600000000000), (2021, 1, 1, 7200000000000)]"

text \<open>
  Four intraday observations around a leap day: 28 February 2020 23:00, 29 February 2020
  01:00, 28 February 2021 01:00 and 28 February 2021 23:00.
\<close>

definition leap_day_dates :: "timestamp list" where
  "leap_day_dates =
     [(2020, 2, 28, 82800000000000), (2020, 2, 29, 3600000000000),
      (2021, 2, 28, 3600000000000), (2021, 2, 28, 82800000000000)]"

section \<open>Properties of the aligner\<close>

lemma set_np_where: "set (np_where P xs) = {k. k < length xs \<and> P (xs ! k)}"
  by (auto simp: np_where_def)

lemma sorted_np_where: "sorted (np_where P xs)"
  unfolding np_where_def by (rule sorted_wrt_filter) simp

lemma np_where_empty_iff: "np_where P xs = [] \<longleftrightarrow> (\<forall>x \<in> set xs. \<not> P x)"
  by (auto simp: np_where_def filter_empty_conv in_set_conv_nth Ball_def)

lemma hd_np_where:
  assumes "np_where P xs \<noteq> []"
  shows "hd (np_where P xs) < length xs" "P (xs ! hd (np_where P xs))"
    "\<And>k. k < hd (np_where P xs) \<Longrightarrow> \<not> P (xs ! k)"
proof -
  let ?ys = "np_where P xs"
  have mem: "hd ?ys \<in> set ?ys" using assms by simp
  then show "hd ?ys < length xs" "P (xs ! hd ?ys)" by (simp_all add: set_np_where)
  fix k assume k: "k < hd ?ys"
  show "\<not> P (xs ! k)"
  proof
    assume "P (xs ! k)"
    moreover have "k < length xs" using k \<open>hd ?ys < length xs\<close> by simp
    ultimately have "k \<in> set ?ys" by (simp add: set_np_where)
    moreover have "\<forall>y \<in> set ?ys. hd ?ys \<le> y"
      using sorted_np_where [of P xs] assms by (cases ?ys) auto
    ultimately show False using k by auto
  qed
qed

lemma last_np_where:
  assumes "np_where P xs \<noteq> []"
  shows "last (np_where P xs) < length xs" "P (xs ! last (np_where P xs))"
    "\<And>k. k < length xs \<Longrightarrow> P (xs ! k) \<Longrightarrow> k \<le> last (np_where P xs)"
proof -
  let ?ys = "np_where P xs"
  have mem: "last ?ys \<in> set ?ys" using assms by simp
  then show "last ?ys < length xs" "P (xs ! last ?ys)" by (simp_all add: set_np_where)
  fix k assume "k < length xs" "P (xs ! k)"
  then have "k \<in> set ?ys" by (simp add: set_np_where)
  then obtain i where i: "i < length ?ys" "?ys ! i = k" by (auto simp: in_set_conv_nth)
  have "?ys ! i \<le> ?ys ! (length ?ys - 1)"
    using sorted_np_where [of P xs] i by (intro sorted_nth_mono) auto
  then show "k \<le> last ?ys" using i assms by (simp add: last_conv_nth)
qed


lemma sorted_le_last: "sorted xs \<Longrightarrow> x \<in> set xs \<Longrightarrow> x \<le> last xs"
  by (induction xs) (auto split: if_splits)

lemma find_closest_exact:
  assumes ne: "drop b D \<noteq> []" and le: "\<not> last (drop b D) < t"
    and ex: "np_where (\<lambda>d. d = t) (drop b D) \<noteq> []"
  shows "find_closest_trading_day D t b = Some (b + hd (np_where (\<lambda>d. d = t) (drop b D)))"
  using assms by (simp add: find_closest_trading_day_def Let_def)

lemma find_closest_past:
  assumes ne: "drop b D \<noteq> []" and le: "\<not> last (drop b D) < t"
    and ex: "np_where (\<lambda>d. d = t) (drop b D) = []"
    and past: "np_where (\<lambda>d. d < t) (drop b D) \<noteq> []"
  shows "find_closest_trading_day D t b = Some (b + last (np_where (\<lambda>d. d < t) (drop b D)))"
  using assms by (simp add: find_closest_trading_day_def Let_def)

lemma find_closest_None_iff:
  "find_closest_trading_day D t b = None \<longleftrightarrow>
     drop b D = [] \<or> last (drop b D) < t \<or>
     (np_where (\<lambda>d. d = t) (drop b D) = [] \<and> np_where (\<lambda>d. d < t) (drop b D) = [])"
  by (simp add: find_closest_trading_day_def Let_def)

text \<open>
  Claim C1. On a sorted date sequence \<open>D\<close>, a target \<open>t\<close> that occurs in \<open>D[b:]\<close> is located
  at the index of its first occurrence at or after the lower bound \<open>b\<close>.
\<close>

theorem locate_exact_match:
  assumes srt: "sorted D" and mem: "t \<in> set (drop b D)"
  shows "\<exists>j. find_closest_trading_day D t b = Some j \<and> b \<le> j \<and> j < length D \<and>
           D ! j = t \<and> (\<forall>k. b \<le> k \<and> k < j \<longrightarrow> D ! k \<noteq> t)"
proof -
  let ?A = "drop b D"
  let ?E = "np_where (\<lambda>d. d = t) ?A"
  have ne: "?A \<noteq> []" using mem by auto
  have "sorted ?A" using srt by (rule sorted_wrt_drop)
  then have le: "\<not> last ?A < t" using sorted_le_last [OF _ mem] by auto
  have ex: "?E \<noteq> []" using mem by (auto simp: np_where_empty_iff)
  have res: "find_closest_trading_day D t b = Some (b + hd ?E)"
    using ne le ex by (rule find_closest_exact)
  have h1: "hd ?E < length ?A" and h2: "?A ! hd ?E = t"
    and h3: "\<And>k. k < hd ?E \<Longrightarrow> ?A ! k \<noteq> t"
    using hd_np_where [OF ex] by auto
  have "b + hd ?E < length D" using h1 by simp
  moreover have "D ! (b + hd ?E) = t" using h1 h2 by simp
  moreover have "\<forall>k. b \<le> k \<and> k < b + hd ?E \<longrightarrow> D ! k \<noteq> t"
  proof (intro allI impI)
    fix k assume k: "b \<le> k \<and> k < b + hd ?E"
    then have "k - b < hd ?E" by arith
    then have "?A ! (k - b) \<noteq> t" by (rule h3)
    moreover have "?A ! (k - b) = D ! k" using k h1 by auto
    ultimately show "D ! k \<noteq> t" by simp
  qed
  ultimately show ?thesis using res by simp
qed

theorem locate_exact_match_witness:
  "sorted [1, 3, 3, 5 :: nat] \<and> (3::nat) \<in> set (drop 1 [1, 3, 3, 5]) \<and>
   (\<exists>j. find_closest_trading_day [1, 3, 3, 5 :: nat] 3 1 = Some j \<and> 1 \<le> j \<and> j < 4 \<and>
        [1, 3, 3, 5 :: nat] ! j = 3)"
  using locate_exact_match [of "[1, 3, 3, 5 :: nat]" 3 1] by auto

text \<open>
  Claim C2. On a sorted date sequence \<open>D\<close> and a target \<open>t\<close> absent from \<open>D[b:]\<close>, the result
  is unmatched exactly when the slice is empty, or \<open>t\<close> lies beyond its last date, or no date
  of the slice is strictly before \<open>t\<close>; otherwise it is the index of the greatest date of
  the slice strictly before \<open>t\<close>, so the date returned is never after \<open>t\<close>.
\<close>

theorem locate_nearest_before:
  assumes srt: "sorted D" and nmem: "t \<notin> set (drop b D)"
  shows "(find_closest_trading_day D t b = None \<longleftrightarrow>
            drop b D = [] \<or> last (drop b D) < t \<or> (\<forall>d \<in> set (drop b D). \<not> d < t)) \<and>
         (\<forall>j. find_closest_trading_day D t b = Some j \<longrightarrow>
            b \<le> j \<and> j < length D \<and> D ! j < t \<and>
            (\<forall>k. b \<le> k \<and> k < length D \<and> D ! k < t \<longrightarrow> k \<le> j \<and> D ! k \<le> D ! j))"
proof -
  let ?A = "drop b D"
  let ?E = "np_where (\<lambda>d. d = t) ?A"
  let ?L = "np_where (\<lambda>d. d < t) ?A"
  have ex: "?E = []" using nmem by (auto simp: np_where_empty_iff)
  have none: "find_closest_trading_day D t b = None \<longleftrightarrow>
      ?A = [] \<or> last ?A < t \<or> (\<forall>d \<in> set ?A. \<not> d < t)"
    by (simp add: find_closest_None_iff ex np_where_empty_iff)
  have some: "b \<le> j \<and> j < length D \<and> D ! j < t \<and>
            (\<forall>k. b \<le> k \<and> k < length D \<and> D ! k < t \<longrightarrow> k \<le> j \<and> D ! k \<le> D ! j)"
    if j: "find_closest_trading_day D t b = Some j" for j
  proof -
    from j have nn: "find_closest_trading_day D t b \<noteq> None" by simp
    then have ne: "?A \<noteq> []" and le: "\<not> last ?A < t" and past: "?L \<noteq> []"
      by (auto simp: find_closest_None_iff ex)
    have jeq: "j = b + last ?L"
      using find_closest_past [OF ne le ex past] j by simp
    have l1: "last ?L < length ?A" and l2: "?A ! last ?L < t"
      and l3: "\<And>k. k < length ?A \<Longrightarrow> ?A ! k < t \<Longrightarrow> k \<le> last ?L"
      using last_np_where [OF past] by auto
    have jlen: "j < length D" using l1 jeq by simp
    have jlt: "D ! j < t" using l1 l2 jeq by simp
    have "k \<le> j \<and> D ! k \<le> D ! j" if k: "b \<le> k \<and> k < length D \<and> D ! k < t" for k
    proof -
      have "k - b < length ?A" using k by auto
      moreover have "?A ! (k - b) < t" using k by auto
      ultimately have "k - b \<le> last ?L" by (rule l3)
      then have kj: "k \<le> j" using jeq by simp
      have "D ! k \<le> D ! j" using srt kj jlen by (rule sorted_nth_mono)
      with kj show ?thesis by simp
    qed
    then show ?thesis using jeq jlen jlt by simp
  qed
  show ?thesis using none some by blast
qed

theorem locate_nearest_before_witness:
  "sorted [1, 3, 3, 5 :: nat] \<and> (4::nat) \<notin> set (drop 1 [1, 3, 3, 5]) \<and>
   find_closest_trading_day [1, 3, 3, 5 :: nat] 4 1 = Some 2 \<and>
   [1, 3, 3, 5 :: nat] ! 2 < 4 \<and>
   find_closest_trading_day [1, 3, 3, 5 :: nat] 6 1 = None \<and>
   find_closest_trading_day [1, 3, 3, 5 :: nat] 0 1 = None"
proof -
  have e: "find_closest_trading_day [1, 3, 3, 5 :: nat] 4 1 = Some 2"
    by code_simp
  have n1: "find_closest_trading_day [1, 3, 3, 5 :: nat] 6 1 = None" by code_simp
  have n2: "find_closest_trading_day [1, 3, 3, 5 :: nat] 0 1 = None" by code_simp
  show ?thesis
    using locate_nearest_before [of "[1, 3, 3, 5 :: nat]" 4 1] e n1 n2 by simp
qed

text \<open>
  Claim C8. The aligner never returns an index below the lower bound \<open>b\<close>, and it returns
  unmatched when the slice \<open>D[b:]\<close> is empty. Sortedness is not needed.
\<close>

theorem locate_lower_bound:
  "(\<forall>j. find_closest_trading_day D t b = Some j \<longrightarrow> b \<le> j) \<and>
   (drop b D = [] \<longrightarrow> find_closest_trading_day D t b = None)"
  by (auto simp: find_closest_trading_day_def Let_def split: if_splits)

theorem locate_lower_bound_witness:
  "find_closest_trading_day [1, 3, 3, 5 :: nat] 4 1 = Some 2 \<and> (1::nat) \<le> 2 \<and>
   drop 4 [1, 3, 3, 5 :: nat] = [] \<and> find_closest_trading_day [1, 3, 3, 5 :: nat] 4 4 = None"
proof -
  have e: "find_closest_trading_day [1, 3, 3, 5 :: nat] 4 1 = Some 2" by code_simp
  show ?thesis
    using locate_lower_bound [of "[1, 3, 3, 5 :: nat]" 4 1]
      locate_lower_bound [of "[1, 3, 3, 5 :: nat]" 4 4] e by simp
qed

section \<open>Properties of the return columns\<close>

lemma find_closest_lt_length:
  assumes "find_closest_trading_day D t b = Some j"
  shows "b \<le> j \<and> j < length D"
proof -
  let ?A = "drop b D"
  let ?E = "np_where (\<lambda>d. d = t) ?A"
  let ?L = "np_where (\<lambda>d. d < t) ?A"
  from assms have nn: "find_closest_trading_day D t b \<noteq> None" by simp
  then have ne: "?A \<noteq> []" and le: "\<not> last ?A < t"
    by (auto simp: find_closest_None_iff)
  show ?thesis
  proof (cases "?E = []")
    case True
    with nn have past: "?L \<noteq> []" by (auto simp: find_closest_None_iff)
    have "j = b + last ?L" using find_closest_past [OF ne le True past] assms by simp
    moreover have "last ?L < length ?A" using last_np_where(1) [OF past] .
    ultimately show ?thesis by simp
  next
    case False
    have "j = b + hd ?E" using find_closest_exact [OF ne le False] assms by simp
    moreover have "hd ?E < length ?A" using hd_np_where(1) [OF False] .
    ultimately show ?thesis by simp
  qed
qed

lemma length_to_indices: "length (to_indices years D) = length D"
  by (simp add: to_indices_def)

lemma nth_to_indices:
  "k < length D \<Longrightarrow>
   to_indices years D ! k = find_closest_trading_day D (date_offset_years years (D ! k)) k"
  by (simp add: to_indices_def nth_enumerate_eq)

lemma to_indices_in_range:
  "k < length D \<Longrightarrow> to_indices years D ! k = Some j \<Longrightarrow> k \<le> j \<and> j < length D"
  using find_closest_lt_length by (simp add: nth_to_indices)


lemma annualized_cell_empty:
  "start_val = NaN \<or> end_val = NaN \<or> start_val = Val 0 \<or> timedelta_days date_to date_from \<le> 0 \<Longrightarrow>
   annualized_cell years date_from date_to start_val end_val = ''''"
  by (auto simp: annualized_cell_def Let_def split: float64.splits)


lemma returns_loop_length:
  "returns_loop years dates series ps = Inr cells \<Longrightarrow> length cells = length ps"
  by (induction ps arbitrary: cells) (auto split: sum.splits)

lemma returns_loop_nth:
  "returns_loop years dates series ps = Inr cells \<Longrightarrow> k < length ps \<Longrightarrow>
   row_return years dates series (fst (ps ! k)) (snd (ps ! k)) = Inr (cells ! k)"
proof (induction ps arbitrary: cells k)
  case Nil
  then show ?case by simp
next
  case (Cons p ps)
  obtain i t where p: "p = (i, t)" by (cases p)
  from Cons.prems(1) p obtain c cs where
    c: "row_return years dates series i t = Inr c"
    and cs: "returns_loop years dates series ps = Inr cs"
    and cells: "cells = c # cs"
    by (auto split: sum.splits)
  show ?case
  proof (cases k)
    case 0
    then show ?thesis using p c cells by simp
  next
    case (Suc k')
    then have "k' < length ps" using Cons.prems(2) by simp
    from Cons.IH [OF cs this] show ?thesis using Suc cells by simp
  qed
qed

lemma returns_loop_Inr:
  assumes "\<forall>p \<in> set ps. \<forall>j. snd p = Some j \<longrightarrow>
             fst p < length series \<and> j < length series \<and> fst p < length dates \<and> j < length dates"
  shows "returns_loop years dates series ps =
           Inr (map (\<lambda>p. case snd p of None \<Rightarrow> ''''
                      | Some j \<Rightarrow> annualized_cell years (dates ! fst p) (dates ! j)
                                   (series ! fst p) (series ! j)) ps)"
  using assms
proof (induction ps)
  case Nil
  then show ?case by simp
next
  case (Cons p ps)
  obtain i t where p: "p = (i, t)" by (cases p)
  have row: "row_return years dates series i t =
      Inr (case t of None \<Rightarrow> ''''
           | Some j \<Rightarrow> annualized_cell years (dates ! i) (dates ! j) (series ! i) (series ! j))"
    using Cons.prems p
    by (cases t) (auto simp: row_return_def Let_def notna_def annualized_cell_empty)
  have "returns_loop years dates series ps =
           Inr (map (\<lambda>p. case snd p of None \<Rightarrow> ''''
                      | Some j \<Rightarrow> annualized_cell years (dates ! fst p) (dates ! j)
                                   (series ! fst p) (series ! j)) ps)"
    using Cons by simp
  then show ?case using p row by (cases t) simp_all
qed

text \<open>
  Claim C5. For a row \<open>i\<close> matched to the end index \<open>j\<close> and any series column, the return
  cell is empty when the start value is missing, the end value is missing, the start value
  is zero, or the elapsed days from \<open>Date[i]\<close> to \<open>Date[j]\<close> are not positive.
\<close>

theorem empty_cell_guards:
  assumes i: "i < length idxs" "i < len_result"
    and j: "idxs ! i = Some j"
    and series: "series = map (\<lambda>s. to_numeric (strip_commas s)) column_text"
    and bad: "series ! i = NaN \<or> series ! j = NaN \<or> series ! i = Val 0 \<or>
              timedelta_days (dates ! j) (dates ! i) \<le> 0"
  shows "column_returns to_numeric years dates idxs column_text len_result ! i = ''''"
proof (cases "returns_loop years dates series (enumerate 0 idxs)")
  case (Inl e)
  then show ?thesis using i series by (simp add: column_returns_def)
next
  case (Inr cells)
  have k: "i < length (enumerate 0 idxs)" using i by simp
  have "row_return years dates series i (Some j) = Inr (cells ! i)"
    using returns_loop_nth [OF Inr k] i j by (simp add: nth_enumerate_eq)
  then have "cells ! i = ''''" using bad
    by (auto simp: row_return_def Let_def notna_def annualized_cell_empty split: if_splits)
  then show ?thesis using Inr series by (simp add: column_returns_def)
qed


subsection \<open>The shape of a formatted cell\<close>










section \<open>Evaluation on worked inputs\<close>

lemma np_where_Nil: "np_where P [] = []"
  by (simp add: np_where_def)

lemma np_where_Cons:
  "np_where P (x # xs) = (if P x then [0] else []) @ map Suc (np_where P xs)"
proof -
  have "[0..<length (x # xs)] = 0 # map Suc [0..<length xs]"
    by (simp add: upt_conv_Cons map_Suc_upt del: upt_Suc)
  then show ?thesis
    by (simp add: np_where_def filter_map comp_def del: upt_Suc)
qed

lemmas find_closest_eval =
  find_closest_trading_day_def np_where_Nil np_where_Cons to_indices_def date_offset_years_def
  days_in_month_def is_leap_year_def Let_def

lemma to_numeric_digits_eval:
  "to_numeric_digits (strip_commas ''0'') = Val 0"
  "to_numeric_digits (strip_commas ''100'') = Val 100"
  "to_numeric_digits (strip_commas ''110'') = Val 110"
  "to_numeric_digits (strip_commas ''121'') = Val 121"
  by (simp_all add: to_numeric_digits_def strip_commas_def digit_of_def)

lemma timedelta_days_eval:
  "timedelta_days (2021, 1, 1, 0) (2020, 1, 1, 0) = 366"
  "timedelta_days (2022, 1, 1, 0) (2021, 1, 1, 0) = 365"
  by (simp_all add: timedelta_days_def timestamp_value_def days_from_civil_def ns_per_day_def)

lemma to_indices_scenario_A:
  "to_indices 1 [(2020, 1, 1, 0), (2021, 1, 1, 0), (2022, 1, 1, 0)] = [Some 1, Some 2, None]"
  by (simp add: find_closest_eval)

theorem empty_cell_guards_witness:
  "map (\<lambda>s. to_numeric_digits (strip_commas s)) [''0'', ''110'', ''121''] ! 0 = Val 0 \<and>
   column_returns to_numeric_digits 1 [(2020, 1, 1, 0), (2021, 1, 1, 0), (2022, 1, 1, 0)]
     [Some 1, Some 2, None] [''0'', ''110'', ''121''] 3 ! 0 = ''''"
proof -
  let ?series = "map (\<lambda>s. to_numeric_digits (strip_commas s)) [''0'', ''110'', ''121'']"
  have v: "?series ! 0 = Val 0" by (simp add: to_numeric_digits_eval)
  have i: "(0::nat) < length [Some (1::nat), Some 2, None]" "(0::nat) < 3" by simp_all
  have j: "[Some (1::nat), Some 2, None] ! 0 = Some 1" by simp
  have bad: "?series ! 0 = NaN \<or> ?series ! 1 = NaN \<or> ?series ! 0 = Val 0 \<or>
      timedelta_days ([(2020, 1, 1, 0), (2021, 1, 1, 0), (2022, 1, 1, 0)] ! 1)
        ([(2020, 1, 1, 0), (2021, 1, 1, 0), (2022, 1, 1, 0)] ! 0) \<le> 0"
    using v by blast
  from empty_cell_guards [OF i j refl bad, of 1] v show ?thesis by blast
qed




section \<open>Monotonicity of the alignment\<close>

lemma find_closest_Some_cases:
  assumes "find_closest_trading_day D t b = Some j"
  shows "b \<le> j \<and> j < length D \<and>
         ((D ! j = t \<and> (\<forall>k. b \<le> k \<and> k < j \<longrightarrow> D ! k \<noteq> t)) \<or>
          (D ! j < t \<and> t \<notin> set (drop b D) \<and>
           (\<forall>k. b \<le> k \<and> k < length D \<and> D ! k < t \<longrightarrow> k \<le> j)))"
proof -
  let ?A = "drop b D"
  let ?E = "np_where (\<lambda>d. d = t) ?A"
  let ?L = "np_where (\<lambda>d. d < t) ?A"
  from assms have nn: "find_closest_trading_day D t b \<noteq> None" by simp
  then have ne: "?A \<noteq> []" and le: "\<not> last ?A < t"
    by (auto simp: find_closest_None_iff)
  show ?thesis
  proof (cases "?E = []")
    case True
    with nn have past: "?L \<noteq> []" by (auto simp: find_closest_None_iff)
    have jeq: "j = b + last ?L" using find_closest_past [OF ne le True past] assms by simp
    have l1: "last ?L < length ?A" and l2: "?A ! last ?L < t"
      and l3: "\<And>k. k < length ?A \<Longrightarrow> ?A ! k < t \<Longrightarrow> k \<le> last ?L"
      using last_np_where [OF past] by auto
    have "t \<notin> set ?A" using True by (auto simp: np_where_empty_iff)
    moreover have "D ! j < t" using l1 l2 jeq by simp
    moreover have "k \<le> j" if k: "b \<le> k \<and> k < length D \<and> D ! k < t" for k
    proof -
      have "k - b < length ?A" using k by auto
      moreover have "?A ! (k - b) < t" using k by auto
      ultimately have "k - b \<le> last ?L" by (rule l3)
      then show ?thesis using jeq by simp
    qed
    ultimately show ?thesis using jeq l1 by auto
  next
    case False
    have jeq: "j = b + hd ?E" using find_closest_exact [OF ne le False] assms by simp
    have h1: "hd ?E < length ?A" and h2: "?A ! hd ?E = t"
      and h3: "\<And>k. k < hd ?E \<Longrightarrow> ?A ! k \<noteq> t"
      using hd_np_where [OF False] by auto
    have "D ! j = t" using h1 h2 jeq by simp
    moreover have "D ! k \<noteq> t" if k: "b \<le> k \<and> k < j" for k
    proof -
      have "k - b < hd ?E" using k jeq by arith
      then have "?A ! (k - b) \<noteq> t" by (rule h3)
      moreover have "?A ! (k - b) = D ! k" using k h1 jeq by auto
      ultimately show ?thesis by simp
    qed
    ultimately show ?thesis using jeq h1 by auto
  qed
qed

lemma find_closest_mono:
  assumes srt: "sorted D" and b: "b \<le> b'" and t: "t \<le> t'"
    and j: "find_closest_trading_day D t b = Some j"
    and j': "find_closest_trading_day D t' b' = Some j'"
  shows "j \<le> j'"
proof (rule ccontr)
  assume "\<not> j \<le> j'"
  then have lt: "j' < j" by simp
  note c = find_closest_Some_cases [OF j]
  note c' = find_closest_Some_cases [OF j']
  have jlen: "j < length D" and bj': "b' \<le> j'" using c c' by auto
  have le1: "D ! j' \<le> D ! j" using srt lt jlen by (simp add: sorted_nth_mono)
  have le2: "D ! j \<le> t" using c by auto
  from c' show False
  proof (elim conjE disjE)
    assume e: "D ! j' = t'"
    then have eq: "D ! j = t" "D ! j' = t" using le1 le2 t by auto
    from c have "\<forall>k. b \<le> k \<and> k < j \<longrightarrow> D ! k \<noteq> t" using eq by auto
    then show False using eq b bj' lt by auto
  next
    assume p: "t' \<notin> set (drop b' D)"
      and m: "\<forall>k. b' \<le> k \<and> k < length D \<and> D ! k < t' \<longrightarrow> k \<le> j'"
    have "b' \<le> j" using bj' lt by simp
    then have "D ! j \<in> set (drop b' D)"
      using jlen by (auto simp: in_set_conv_nth intro!: exI [of _ "j - b'"])
    then have "D ! j \<noteq> t'" using p by auto
    then have "D ! j < t'" using le2 t by auto
    then have "j \<le> j'" using m \<open>b' \<le> j\<close> jlen by auto
    then show False using lt by simp
  qed
qed

lemma date_offset_years_mono:
  assumes "time_of_day d = 0" "time_of_day d' = 0" "d \<le> d'"
  shows "date_offset_years years d \<le> date_offset_years years d'"
  using assms
  by (cases d; cases d') (auto simp: date_offset_years_def time_of_day_def min_def)

lemma date_offset_years_mono_unclamped:
  assumes "d \<le> d'"
    and "case d of (y, m, dd, tod) \<Rightarrow> dd \<le> days_in_month (y + years) m"
    and "case d' of (y, m, dd, tod) \<Rightarrow> dd \<le> days_in_month (y + years) m"
  shows "date_offset_years years d \<le> date_offset_years years d'"
  using assms
  by (cases d; cases d') (auto simp: date_offset_years_def min_def)

text \<open>
  Claim C10, amended. On a sorted table, two rows \<open>i < i'\<close> whose year-shifted targets are in
  order and that are aligned to \<open>j\<close> and \<open>j'\<close> have \<open>j \<le> j'\<close>. The targets of two rows are
  in order whenever the dates carry no time of day, and whenever the year shift clamps
  neither day; across a leap day with times of day they can be out of order (29 February
  01:00 shifts to 28 February 01:00, before the shift of 28 February 23:00), and the end
  indices then decrease.
\<close>

theorem end_indices_monotone_ordered:
  assumes srt: "sorted D"
    and ii: "i < i'" "i' < length D"
    and targets: "date_offset_years years (D ! i) \<le> date_offset_years years (D ! i')"
    and j: "to_indices years D ! i = Some j" and j': "to_indices years D ! i' = Some j'"
  shows "j \<le> j'"
proof -
  have "find_closest_trading_day D (date_offset_years years (D ! i)) i = Some j"
    using j ii by (simp add: nth_to_indices)
  moreover have "find_closest_trading_day D (date_offset_years years (D ! i')) i' = Some j'"
    using j' ii by (simp add: nth_to_indices)
  moreover have "i \<le> i'" using ii by simp
  ultimately show ?thesis using find_closest_mono [OF srt _ targets] by blast
qed

theorem end_indices_monotone_ordered_witness:
  "sorted hourly_dates \<and> (0 :: nat) < 1 \<and> 1 < length hourly_dates \<and>
   date_offset_years 1 (hourly_dates ! 0) \<le> date_offset_years 1 (hourly_dates ! 1) \<and>
   to_indices 1 hourly_dates ! 0 = Some 2 \<and>
   to_indices 1 hourly_dates ! 1 = Some 3 \<and> (2 :: nat) \<le> 3"
proof -
  have srt: "sorted hourly_dates" by (simp add: hourly_dates_def)
  have ii: "(0 :: nat) < 1" "1 < length hourly_dates" by (simp_all add: hourly_dates_def)
  have targets: "date_offset_years 1 (hourly_dates ! 0) \<le> date_offset_years 1 (hourly_dates ! 1)"
    by (simp add: hourly_dates_def date_offset_years_def)
  have idxs: "to_indices 1 hourly_dates = [Some 2, Some 3, None, None]"
    by (simp add: hourly_dates_def find_closest_eval)
  have j: "to_indices 1 hourly_dates ! 0 = Some 2" and j': "to_indices 1 hourly_dates ! 1 = Some 3"
    unfolding idxs by simp_all
  from end_indices_monotone_ordered [OF srt ii targets j j'] srt ii targets j j'
  show ?thesis by blast
qed

theorem end_indices_monotone_counterexample:
  "sorted leap_day_dates \<and> (0 :: nat) < 1 \<and> 1 < length leap_day_dates \<and>
   to_indices 1 leap_day_dates ! 0 = Some 3 \<and>
   to_indices 1 leap_day_dates ! 1 = Some 2 \<and> \<not> (3 :: nat) \<le> 2"
  by (simp add: leap_day_dates_def find_closest_eval)

section \<open>The in-place date conversion\<close>

lemma those_eq_Some: "those xs = Some ys \<longleftrightarrow> xs = map Some ys"
proof (induction xs arbitrary: ys)
  case Nil
  then show ?case by auto
next
  case (Cons x xs)
  show ?case
  proof (cases x)
    case None
    then show ?thesis by auto
  next
    case (Some z)
    have "those (x # xs) = Some ys \<longleftrightarrow> (\<exists>zs. those xs = Some zs \<and> ys = z # zs)"
      using Some by auto
    also have "\<dots> \<longleftrightarrow> (\<exists>zs. xs = map Some zs \<and> ys = z # zs)"
      by (simp add: Cons.IH)
    also have "\<dots> \<longleftrightarrow> x # xs = map Some ys"
      using Some by (cases ys) auto
    finally show ?thesis .
  qed
qed

lemma to_datetime_converted:
  assumes "those (map (\<lambda>row. to_datetime_cell to_datetime (fst row)) rws) = Some stamps"
  shows "those (map (\<lambda>row. to_datetime_cell to_datetime (fst row))
           (map2 (\<lambda>t row. (Stamp t, snd row)) stamps rws)) = Some stamps"
    and "map snd (map2 (\<lambda>t row. (Stamp t, snd row)) stamps rws) = map snd rws"
    and "length stamps = length rws"
proof -
  from assms have eq: "map (\<lambda>row. to_datetime_cell to_datetime (fst row)) rws = map Some stamps"
    by (simp add: those_eq_Some)
  then show len: "length stamps = length rws" by (metis length_map)
  have "map (\<lambda>row. to_datetime_cell to_datetime (fst row))
           (map2 (\<lambda>t row. (Stamp t, snd row)) stamps rws) = map Some stamps"
    using len by (intro nth_equalityI) auto
  then show "those (map (\<lambda>row. to_datetime_cell to_datetime (fst row))
           (map2 (\<lambda>t row. (Stamp t, snd row)) stamps rws)) = Some stamps"
    by (simp add: those_eq_Some)
  show "map snd (map2 (\<lambda>t row. (Stamp t, snd row)) stamps rws) = map snd rws"
    using len by (intro nth_equalityI) auto
qed

lemma calculate_returns_Inr_stamps:
  assumes "calculate_returns_optimized to_datetime to_numeric df years = Inr out"
  obtains stamps where
    "''Date'' \<in> set (columns df)"
    "those (map (\<lambda>row. to_datetime_cell to_datetime (fst row)) (rows df)) = Some stamps"
    "df_after out = df\<lparr>rows := map2 (\<lambda>t row. (Stamp t, snd row)) stamps (rows df)\<rparr>"
    "period_result to_numeric (columns df) (sort_values_Date (zip stamps (map snd (rows df)))) years
       = Inr (result_df out, removed_rows out)"
  using assms
  by (auto simp: calculate_returns_optimized_def Let_def split: if_splits option.splits sum.splits)

lemma stamp_rows_snd:
  "map2 (\<lambda>t row. (Stamp t, snd row)) stamps rws =
   map2 (\<lambda>t cells. (Stamp t, cells)) stamps (map snd rws)"
  by (simp add: zip_map2 case_prod_unfold)

lemma calculate_returns_cong:
  assumes "columns df' = columns df"
    and "those (map (\<lambda>row. to_datetime_cell to_datetime (fst row)) (rows df')) =
         those (map (\<lambda>row. to_datetime_cell to_datetime (fst row)) (rows df))"
    and "map snd (rows df') = map snd (rows df)"
    and "\<And>rws. df'\<lparr>rows := rws\<rparr> = df\<lparr>rows := rws\<rparr>"
  shows "calculate_returns_optimized to_datetime to_numeric df' years =
         calculate_returns_optimized to_datetime to_numeric df years"
  unfolding calculate_returns_optimized_def stamp_rows_snd
  by (simp only: assms)

text \<open>
  The call converts the \<open>Date\<close> column of its argument in place. A later call on the table
  object it leaves behind returns what it returns on the original table.
\<close>

lemma calculate_returns_after:
  assumes "calculate_returns_optimized to_datetime to_numeric df years = Inr out"
  shows "calculate_returns_optimized to_datetime to_numeric (df_after out) years' =
         calculate_returns_optimized to_datetime to_numeric df years'"
proof -
  from assms obtain stamps where
    d: "''Date'' \<in> set (columns df)"
    and s: "those (map (\<lambda>row. to_datetime_cell to_datetime (fst row)) (rows df)) = Some stamps"
    and a: "df_after out = df\<lparr>rows := map2 (\<lambda>t row. (Stamp t, snd row)) stamps (rows df)\<rparr>"
    by (rule calculate_returns_Inr_stamps)
  note c = to_datetime_converted [OF s]
  have r: "rows (df_after out) = map2 (\<lambda>t row. (Stamp t, snd row)) stamps (rows df)"
    by (simp add: a)
  show ?thesis
  proof (rule calculate_returns_cong)
    show "columns (df_after out) = columns df" by (simp add: a)
    show "those (map (\<lambda>row. to_datetime_cell to_datetime (fst row)) (rows (df_after out))) =
         those (map (\<lambda>row. to_datetime_cell to_datetime (fst row)) (rows df))"
      unfolding r using c(1) s by (simp only:)
    show "map snd (rows (df_after out)) = map snd (rows df)"
      unfolding r using c(2) by (simp only:)
    show "\<And>rws. df_after out\<lparr>rows := rws\<rparr> = df\<lparr>rows := rws\<rparr>" by (simp add: a)
  qed
qed

section \<open>The loops in closed form\<close>

lemma to_dates_loop_Inr:
  "(\<forall>j. Some j \<in> set idxs \<longrightarrow> j < length dates) \<Longrightarrow>
   to_dates_loop dates idxs = Inr (aligned_to_dates dates idxs)"
proof (induction idxs)
  case Nil
  then show ?case by (simp add: aligned_to_dates_def)
next
  case (Cons t idxs)
  then have "to_dates_loop dates idxs = Inr (aligned_to_dates dates idxs)" by simp
  then show ?case using Cons.prems by (cases t) (simp_all add: aligned_to_dates_def)
qed

lemma to_indices_set_in_range:
  assumes "Some j \<in> set (to_indices years D)"
  shows "j < length D"
proof -
  from assms obtain k where "k < length D" "to_indices years D ! k = Some j"
    by (auto simp: in_set_conv_nth length_to_indices)
  then show ?thesis using to_indices_in_range by blast
qed

lemma column_returns_aligned:
  assumes len: "length column_text = length D"
  shows "column_returns to_numeric years D (to_indices years D) column_text m =
         aligned_returns to_numeric years D (to_indices years D) column_text"
proof -
  let ?idxs = "to_indices years D"
  let ?series = "map (\<lambda>s. to_numeric (strip_commas s)) column_text"
  have rng: "\<forall>p \<in> set (enumerate 0 ?idxs). \<forall>j. snd p = Some j \<longrightarrow>
          fst p < length ?series \<and> j < length ?series \<and> fst p < length D \<and> j < length D"
  proof (intro ballI allI impI)
    fix p j assume p: "p \<in> set (enumerate 0 ?idxs)" and s: "snd p = Some j"
    from p have "fst p < length D" "?idxs ! fst p = snd p"
      by (auto simp: in_set_enumerate_eq length_to_indices)
    then show "fst p < length ?series \<and> j < length ?series \<and> fst p < length D \<and> j < length D"
      using to_indices_in_range [of "fst p" D years j] s len by simp
  qed
  have "map (\<lambda>p. case snd p of None \<Rightarrow> ''''
                      | Some j \<Rightarrow> annualized_cell years (D ! fst p) (D ! j)
                                   (?series ! fst p) (?series ! j)) (enumerate 0 ?idxs) =
        aligned_returns to_numeric years D ?idxs column_text"
    unfolding aligned_returns_def
  proof (rule map_cong [OF refl])
    fix p assume p: "p \<in> set (enumerate 0 ?idxs)"
    show "(case snd p of None \<Rightarrow> ''''
            | Some j \<Rightarrow> annualized_cell years (D ! fst p) (D ! j) (?series ! fst p) (?series ! j)) =
          (case snd p of None \<Rightarrow> ''''
            | Some j \<Rightarrow> annualized_cell years (D ! fst p) (D ! j)
                (to_numeric (strip_commas (column_text ! fst p)))
                (to_numeric (strip_commas (column_text ! j))))"
      using rng p by (cases "snd p") auto
  qed
  then show ?thesis
    using returns_loop_Inr [OF rng, of years] by (simp add: column_returns_def)
qed

lemma length_aligned_returns [simp]:
  "length (aligned_returns to_numeric years D idxs column_text) = length idxs"
  by (simp add: aligned_returns_def)

lemma length_aligned_to_dates [simp]: "length (aligned_to_dates D idxs) = length idxs"
  by (simp add: aligned_to_dates_def)

subsection \<open>Headers\<close>

lemma return_header_inj: "return_header c years = return_header c' years \<longleftrightarrow> c = c'"
  by (simp add: return_header_def)

lemma return_header_neq [simp]:
  "return_header c years \<noteq> ''From''" "return_header c years \<noteq> to_header years'"
  "to_header years \<noteq> ''From''" "''From'' \<noteq> to_header years"
  by (simp_all add: return_header_def to_header_def)

subsection \<open>The column loop\<close>

lemma update_Cons_other:
  "k \<noteq> k0 \<Longrightarrow> AList.update k v ((k0, v0) # al) = (k0, v0) # AList.update k v al"
  by simp

lemma set_update_subset: "set (AList.update k v al) \<subseteq> insert (k, v) (set al)"
  by (induction al) auto

lemma boolean_mask_map: "boolean_mask keep (map f xs) = map f (boolean_mask keep xs)"
  by (simp add: boolean_mask_def zip_map2 filter_map comp_def case_prod_unfold)

lemma boolean_mask_all:
  "list_all id keep \<Longrightarrow> length xs \<le> length keep \<Longrightarrow> boolean_mask keep xs = xs"
proof (induction xs arbitrary: keep)
  case Nil
  then show ?case by (simp add: boolean_mask_def)
next
  case (Cons x xs)
  then show ?case by (cases keep) (auto simp: boolean_mask_def)
qed

lemma boolean_mask_self: "boolean_mask (map P xs) xs = filter P xs"
  by (induction xs) (auto simp: boolean_mask_def)

lemma length_boolean_mask:
  "length xs = length keep \<Longrightarrow> length (boolean_mask keep xs) = length (filter id keep)"
proof (induction xs arbitrary: keep)
  case Nil
  then show ?case by (simp add: boolean_mask_def)
next
  case (Cons x xs)
  then show ?case by (cases keep) (auto simp: boolean_mask_def)
qed

lemma subseq_boolean_mask: "subseq (boolean_mask keep xs) xs"
proof (induction xs arbitrary: keep)
  case Nil
  then show ?case by (simp add: boolean_mask_def)
next
  case (Cons x xs)
  show ?case
  proof (cases keep)
    case Nil
    then show ?thesis by (simp add: boolean_mask_def)
  next
    case (Cons b bs)
    have "subseq (boolean_mask bs xs) xs" by (rule Cons.IH)
    then show ?thesis using Cons by (cases b) (auto simp: boolean_mask_def)
  qed
qed

lemma fold_columns_aligned:
  assumes D: "D = map fst sorted_rows"
  shows "fold (\<lambda>column r.
            if column = ''Date'' then r
            else AList.update (return_header column years)
                   (column_returns to_numeric years D (to_indices years D)
                      (map (\<lambda>row. snd row column) sorted_rows) (len_frame r)) r) cols r0 =
         fold (\<lambda>column r.
            if column = ''Date'' then r
            else AList.update (return_header column years)
                   (aligned_returns to_numeric years D (to_indices years D)
                      (map (\<lambda>row. snd row column) sorted_rows)) r) cols r0"
proof -
  have "length (map (\<lambda>row. snd row column) sorted_rows) = length D" for column :: string
    using D by simp
  then show ?thesis by (simp add: column_returns_aligned cong: if_cong)
qed

lemma fold_update_head:
  assumes "\<And>c. hdr c \<noteq> k0"
  shows "fold (\<lambda>column r. if column = ''Date'' then r else AList.update (hdr column) (val column) r)
           cols ((k0, v0) # rest) =
         (k0, v0) #
         fold (\<lambda>column r. if column = ''Date'' then r else AList.update (hdr column) (val column) r)
           cols rest"
  using assms by (induction cols arbitrary: rest) auto

lemma fold_update_other:
  assumes "\<forall>c \<in> set cols. c \<noteq> ''Date'' \<longrightarrow> hdr c \<noteq> k"
  shows "map_of (fold (\<lambda>column r. if column = ''Date'' then r
                        else AList.update (hdr column) (val column) r) cols r) k = map_of r k"
  using assms by (induction cols arbitrary: r) (auto simp: update_conv')

lemma fold_update_column:
  assumes "inj hdr" "c \<in> set cols" "c \<noteq> ''Date''"
  shows "map_of (fold (\<lambda>column r. if column = ''Date'' then r
                        else AList.update (hdr column) (val column) r) cols r) (hdr c) =
         Some (val c)"
  using assms(2)
proof (induction cols arbitrary: r rule: rev_induct)
  case Nil
  then show ?case by simp
next
  case (snoc x xs)
  show ?case
  proof (cases "x = c")
    case True
    then show ?thesis using assms(3) by (simp add: update_conv')
  next
    case False
    then have "c \<in> set xs" using snoc.prems by simp
    then have "map_of (fold (\<lambda>column r. if column = ''Date'' then r
                        else AList.update (hdr column) (val column) r) xs r) (hdr c) =
         Some (val c)" by (rule snoc.IH)
    moreover have "hdr x \<noteq> hdr c" using False assms(1) by (auto dest: injD)
    ultimately show ?thesis by (simp add: update_conv')
  qed
qed

lemma fold_update_lengths:
  assumes "\<forall>p \<in> set r. length (snd p) = n" "\<And>c. length (val c) = n"
  shows "\<forall>p \<in> set (fold (\<lambda>column r. if column = ''Date'' then r
                        else AList.update (hdr column) (val column) r) cols r). length (snd p) = n"
  using assms(1)
proof (induction cols arbitrary: r)
  case Nil
  then show ?case by simp
next
  case (Cons x xs)
  have "\<forall>p \<in> set (AList.update (hdr x) (val x) r). length (snd p) = n"
    using set_update_subset [of "hdr x" "val x" r] Cons.prems assms(2) by auto
  then show ?case using Cons by simp
qed

lemma inj_return_header: "inj (\<lambda>c. return_header c years)"
  by (rule injI) (simp add: return_header_inj)

subsection \<open>The period result\<close>

lemma strftime_mdY_nonempty: "strftime_mdY ts \<noteq> ''''"
  by (cases ts) (simp add: strftime_mdY_def)

lemma aligned_to_dates_valid:
  "map (\<lambda>s. s \<noteq> '''') (aligned_to_dates D (to_indices years D)) = matched_rows years D"
  by (auto simp: aligned_to_dates_def matched_rows_def strftime_mdY_nonempty split: option.splits)

lemma unfiltered_frame_From:
  "\<exists>rest. unfiltered_frame to_numeric cols sorted_rows years =
     (''From'', map strftime_mdY (map fst sorted_rows)) # rest"
  unfolding unfiltered_frame_def Let_def
  by (subst fold_update_head) simp_all

lemma len_unfiltered_frame:
  "len_frame (unfiltered_frame to_numeric cols sorted_rows years) = length sorted_rows"
  using unfiltered_frame_From [of to_numeric cols sorted_rows years]
  by (auto simp: len_frame_def)

lemma unfiltered_frame_lengths:
  "\<forall>p \<in> set (unfiltered_frame to_numeric cols sorted_rows years).
     length (snd p) = length sorted_rows"
  unfolding unfiltered_frame_def Let_def
  by (rule fold_update_lengths) (simp_all add: length_to_indices)

lemma unfiltered_frame_To:
  "map_of (unfiltered_frame to_numeric cols sorted_rows years) (to_header years) =
     Some (aligned_to_dates (map fst sorted_rows) (to_indices years (map fst sorted_rows)))"
  unfolding unfiltered_frame_def Let_def
  by (subst fold_update_other) simp_all

lemma unfiltered_frame_From_lookup:
  "map_of (unfiltered_frame to_numeric cols sorted_rows years) ''From'' =
     Some (map strftime_mdY (map fst sorted_rows))"
  unfolding unfiltered_frame_def Let_def
  by (subst fold_update_other) simp_all

lemma unfiltered_frame_column:
  assumes "c \<in> set cols" "c \<noteq> ''Date''"
  shows "map_of (unfiltered_frame to_numeric cols sorted_rows years) (return_header c years) =
     Some (aligned_returns to_numeric years (map fst sorted_rows)
             (to_indices years (map fst sorted_rows)) (map (\<lambda>row. snd row c) sorted_rows))"
  unfolding unfiltered_frame_def Let_def
  using fold_update_column [OF inj_return_header assms,
      of years "\<lambda>column. aligned_returns to_numeric years (map fst sorted_rows)
             (to_indices years (map fst sorted_rows)) (map (\<lambda>row. snd row column) sorted_rows)"]
  by simp

lemma period_result_closed:
  "period_result to_numeric cols sorted_rows years =
     Inr (map (\<lambda>(name, col). (name, boolean_mask (matched_rows years (map fst sorted_rows)) col))
            (unfiltered_frame to_numeric cols sorted_rows years),
          if list_all id (matched_rows years (map fst sorted_rows)) then None
          else Some (length sorted_rows -
                     length (filter id (matched_rows years (map fst sorted_rows)))))"
proof -
  let ?D = "map fst sorted_rows"
  let ?idxs = "to_indices years ?D"
  let ?to = "aligned_to_dates ?D ?idxs"
  let ?valid = "matched_rows years ?D"
  let ?U = "unfiltered_frame to_numeric cols sorted_rows years"
  have loop: "to_dates_loop ?D ?idxs = Inr ?to"
    by (rule to_dates_loop_Inr) (auto dest: to_indices_set_in_range)
  have r1: "AList.update (to_header years) ?to (AList.update ''From'' (map strftime_mdY ?D) []) =
      [(''From'', map strftime_mdY ?D), (to_header years, ?to)]"
    by simp
  have r2: "fold (\<lambda>column r.
            if column = ''Date'' then r
            else AList.update (return_header column years)
                   (column_returns to_numeric years ?D ?idxs
                      (map (\<lambda>row. snd row column) sorted_rows) (len_frame r)) r) cols
          [(''From'', map strftime_mdY ?D), (to_header years, ?to)] = ?U"
    unfolding unfiltered_frame_def Let_def by (rule fold_columns_aligned) simp
  have unmasked: "map (\<lambda>(name, col). (name, boolean_mask ?valid col)) ?U = ?U"
    if "list_all id ?valid"
  proof (rule map_idI)
    fix p assume "p \<in> set ?U"
    then have "length (snd p) \<le> length ?valid"
      using unfiltered_frame_lengths [of to_numeric cols sorted_rows years]
      by (simp add: matched_rows_def length_to_indices)
    then show "(case p of (name, col) \<Rightarrow> (name, boolean_mask ?valid col)) = p"
      using that by (cases p) (simp add: boolean_mask_all)
  qed
  show ?thesis
    unfolding period_result_def Let_def loop sum.case r1 r2 unfiltered_frame_To option.case
      aligned_to_dates_valid len_unfiltered_frame
    by (simp add: unmasked)
qed

section \<open>The per-period computation in closed form\<close>

lemma map_insort_key: "map f (insort_key f x xs) = insort (f x) (map f xs)"
  by (induction xs) auto

lemma map_sort_key: "map f (sort_key f xs) = sort (map f xs)"
  by (induction xs) (auto simp: map_insort_key)

lemma sorted_dates_sort_values:
  "length stamps = length cells \<Longrightarrow>
   map fst (sort_values_Date (zip stamps cells)) = sort stamps"
  by (simp add: sort_values_Date_def map_sort_key)

lemma length_sort_values [simp]: "length (sort_values_Date rws) = length rws"
  by (simp add: sort_values_Date_def)

lemma subseq_sorted: "subseq xs ys \<Longrightarrow> sorted ys \<Longrightarrow> sorted xs"
  by (auto simp: subseq_conv_nths sorted_nths)

lemma calculate_returns_closed:
  assumes "''Date'' \<in> set (columns df)"
    and "those (map (\<lambda>row. to_datetime_cell to_datetime (fst row)) (rows df)) = Some stamps"
  shows "calculate_returns_optimized to_datetime to_numeric df years =
     Inr \<lparr>df_after = df\<lparr>rows := map2 (\<lambda>t row. (Stamp t, snd row)) stamps (rows df)\<rparr>,
          result_df =
            map (\<lambda>(name, col). (name, boolean_mask (matched_rows years (sort stamps)) col))
              (unfiltered_frame to_numeric (columns df)
                 (sort_values_Date (zip stamps (map snd (rows df)))) years),
          removed_rows =
            (if list_all id (matched_rows years (sort stamps)) then None
             else Some (length (rows df) - length (filter id (matched_rows years (sort stamps)))))\<rparr>"
proof -
  have len: "length stamps = length (map snd (rows df))"
    using to_datetime_converted(3) [OF assms(2)] by simp
  note D = sorted_dates_sort_values [OF len]
  show ?thesis
    unfolding calculate_returns_optimized_def Let_def period_result_closed
    using assms len by (simp add: D)
qed

lemma length_matched_rows [simp]: "length (matched_rows years D) = length D"
  by (simp add: matched_rows_def length_to_indices)

text \<open>
  Claim C6. In the result of a period, every retained row has a non-empty To-date; the
  count reported as removed is the number of input rows minus the number of retained rows
  (and nothing is reported exactly when every row is retained); and the retained rows are a
  subsequence of the date-sorted input, so they are in ascending date order.
\<close>

theorem row_drop_consistency:
  assumes "calculate_returns_optimized to_datetime to_numeric df years = Inr out"
  shows "\<exists>from_col to_col stamps ds.
           those (map (\<lambda>row. to_datetime_cell to_datetime (fst row)) (rows df)) = Some stamps \<and>
           map_of (result_df out) ''From'' = Some from_col \<and>
           map_of (result_df out) (to_header years) = Some to_col \<and>
           (\<forall>p \<in> set (result_df out). length (snd p) = length from_col) \<and>
           (\<forall>s \<in> set to_col. s \<noteq> '''') \<and>
           (\<forall>k. removed_rows out = Some k \<longrightarrow> k = length (rows df) - length from_col) \<and>
           (removed_rows out = None \<longrightarrow> length from_col = length (rows df)) \<and>
           from_col = map strftime_mdY ds \<and> subseq ds (sort stamps) \<and> sorted ds"
proof -
  from assms obtain stamps where
    d: "''Date'' \<in> set (columns df)"
    and s: "those (map (\<lambda>row. to_datetime_cell to_datetime (fst row)) (rows df)) = Some stamps"
    by (rule calculate_returns_Inr_stamps)
  let ?R = "sort_values_Date (zip stamps (map snd (rows df)))"
  let ?D = "sort stamps"
  let ?valid = "matched_rows years ?D"
  let ?U = "unfiltered_frame to_numeric (columns df) ?R years"
  let ?to = "aligned_to_dates ?D (to_indices years ?D)"
  have len: "length stamps = length (rows df)" using to_datetime_converted(3) [OF s] .
  then have D: "map fst ?R = ?D" by (simp add: sorted_dates_sort_values)
  have lenR: "length ?R = length ?D" using len by simp
  note closed = calculate_returns_closed [OF d s, of to_numeric years]
  have res: "result_df out = map (\<lambda>(name, col). (name, boolean_mask ?valid col)) ?U"
    and rem: "removed_rows out = (if list_all id ?valid then None
             else Some (length (rows df) - length (filter id ?valid)))"
    using assms closed by auto
  let ?ds = "boolean_mask ?valid ?D"
  have "map_of (result_df out) ''From'' = Some (boolean_mask ?valid (map strftime_mdY ?D))"
    unfolding res map_of_map using unfiltered_frame_From_lookup [of to_numeric "columns df" ?R years]
    by (simp add: D)
  then have from_col: "map_of (result_df out) ''From'' = Some (map strftime_mdY ?ds)"
    by (simp add: boolean_mask_map)
  have "map_of (result_df out) (to_header years) = Some (boolean_mask ?valid ?to)"
    unfolding res map_of_map using unfiltered_frame_To [of to_numeric "columns df" ?R years]
    by (simp add: D)
  moreover have "boolean_mask ?valid ?to = filter (\<lambda>s. s \<noteq> '''') ?to"
    using boolean_mask_self [of "\<lambda>s. s \<noteq> ''''" ?to]
    by (simp add: aligned_to_dates_valid)
  ultimately have to_col:
    "map_of (result_df out) (to_header years) = Some (filter (\<lambda>s. s \<noteq> '''') ?to)"
    by simp
  have lds: "length ?ds = length (filter id ?valid)"
    by (rule length_boolean_mask) simp
  have lens: "\<forall>p \<in> set (result_df out). length (snd p) = length (map strftime_mdY ?ds)"
  proof
    fix p assume "p \<in> set (result_df out)"
    then obtain q where q: "q \<in> set ?U" and p: "p = (fst q, boolean_mask ?valid (snd q))"
      unfolding res by (auto simp: case_prod_unfold)
    have "length (snd q) = length ?valid"
      using unfiltered_frame_lengths [of to_numeric "columns df" ?R years] q lenR by simp
    then have "length (boolean_mask ?valid (snd q)) = length (filter id ?valid)"
      by (rule length_boolean_mask)
    then show "length (snd p) = length (map strftime_mdY ?ds)" using p lds by simp
  qed
  have le: "length (filter id ?valid) \<le> length (rows df)"
    using length_filter_le [of id ?valid] len by simp
  have r1: "\<forall>k. removed_rows out = Some k \<longrightarrow>
      k = length (rows df) - length (map strftime_mdY ?ds)"
    using rem lds by (auto split: if_splits)
  have r2: "removed_rows out = None \<longrightarrow> length (map strftime_mdY ?ds) = length (rows df)"
  proof
    assume "removed_rows out = None"
    then have "list_all id ?valid" using rem by (auto split: if_splits)
    then have "filter id ?valid = ?valid" by (simp add: list_all_iff)
    then show "length (map strftime_mdY ?ds) = length (rows df)" using lds len by simp
  qed
  have sub: "subseq ?ds ?D" by (rule subseq_boolean_mask)
  then have srt: "sorted ?ds" by (rule subseq_sorted) simp
  show ?thesis
    using s from_col to_col lens r1 r2 sub srt by (intro exI conjI) auto
qed

section \<open>Columns are computed independently\<close>

lemma calculate_returns_succeeds:
  assumes "''Date'' \<in> set (columns df)"
    and "those (map (\<lambda>row. to_datetime_cell to_datetime (fst row)) (rows df)) = Some stamps"
  shows "\<exists>out. calculate_returns_optimized to_datetime to_numeric df years = Inr out"
  using calculate_returns_closed [OF assms] by blast

lemma insort_key_map_snd:
  "insort_key fst (k, h v) (map (\<lambda>p. (fst p, h (snd p))) xs) =
   map (\<lambda>p. (fst p, h (snd p))) (insort_key fst (k, v) xs)"
  by (induction xs) auto

lemma sort_key_map_snd:
  "sort_key fst (map (\<lambda>p. (fst p, h (snd p))) xs) =
   map (\<lambda>p. (fst p, h (snd p))) (sort_key fst xs)"
proof (induction xs)
  case Nil
  then show ?case by simp
next
  case (Cons x xs)
  then show ?case using insort_key_map_snd [of "fst x" h "snd x"] by simp
qed

lemma sorted_column_text:
  "map (\<lambda>row. snd row c) (sort_values_Date (zip stamps cells)) =
   map snd (sort_values_Date (zip stamps (map (\<lambda>cell. cell c) cells)))"
proof -
  have "zip stamps (map (\<lambda>cell. cell c) cells) =
        map (\<lambda>p. (fst p, snd p c)) (zip stamps cells)"
    by (simp add: zip_map2 case_prod_unfold)
  then show ?thesis
    by (simp add: sort_values_Date_def sort_key_map_snd [of "\<lambda>cell. cell c"] comp_def)
qed

lemma fold_update_delete_cong:
  assumes "\<forall>c' \<in> set cols. hdr c' \<noteq> k \<longrightarrow> val c' = val' c'"
    and "AList.delete k r = AList.delete k r'"
  shows "AList.delete k
           (fold (\<lambda>column r. if column = ''Date'' then r
                    else AList.update (hdr column) (val column) r) cols r) =
         AList.delete k
           (fold (\<lambda>column r. if column = ''Date'' then r
                    else AList.update (hdr column) (val' column) r) cols r')"
  using assms
proof (induction cols arbitrary: r r')
  case Nil
  then show ?case by simp
next
  case (Cons x xs)
  have step: "AList.delete k (AList.update (hdr x) (val x) r) =
              AList.delete k (AList.update (hdr x) (val' x) r')"
  proof (cases "hdr x = k")
    case True
    then show ?thesis using Cons.prems(2) by (simp add: delete_update_same)
  next
    case False
    then have "val x = val' x" using Cons.prems(1) by simp
    then show ?thesis using False Cons.prems(2) by (simp add: delete_update)
  qed
  show ?case
  proof (cases "x = ''Date''")
    case True
    then show ?thesis using Cons by simp
  next
    case False
    then show ?thesis using Cons.IH [OF _ step] Cons.prems(1) by simp
  qed
qed

lemma delete_map_values:
  "AList.delete k (map (\<lambda>(name, col). (name, f col)) r) =
   map (\<lambda>(name, col). (name, f col)) (AList.delete k r)"
  by (induction r) (auto simp: AList.delete_eq)

lemma unfiltered_frame_delete_cong:
  assumes "length stamps = length cells" "length stamps = length cells'"
    and "\<forall>c'. c' \<noteq> c \<longrightarrow> map (\<lambda>cell. cell c') cells' = map (\<lambda>cell. cell c') cells"
  shows "AList.delete (return_header c years)
           (unfiltered_frame to_numeric cols (sort_values_Date (zip stamps cells')) years) =
         AList.delete (return_header c years)
           (unfiltered_frame to_numeric cols (sort_values_Date (zip stamps cells)) years)"
proof -
  have D: "map fst (sort_values_Date (zip stamps cells')) = sort stamps"
    "map fst (sort_values_Date (zip stamps cells)) = sort stamps"
    using assms(1,2) by (simp_all add: sorted_dates_sort_values)
  have coltext: "map (\<lambda>row. snd row c') (sort_values_Date (zip stamps cells')) =
             map (\<lambda>row. snd row c') (sort_values_Date (zip stamps cells))"
    if "return_header c' years \<noteq> return_header c years" for c'
  proof -
    from that have "c' \<noteq> c" by auto
    then show ?thesis using assms(3) by (simp add: sorted_column_text)
  qed
  show ?thesis
    unfolding unfiltered_frame_def Let_def D
    by (rule fold_update_delete_cong) (simp_all add: coltext)
qed

lemma annualized_cell_NaN [simp]:
  "annualized_cell years date_from date_to NaN end_val = ''''"
  by (simp add: annualized_cell_def)

lemma aligned_returns_all_NaN:
  assumes "\<forall>s \<in> set column_text. to_numeric (strip_commas s) = NaN"
    and "length column_text = length D"
  shows "\<forall>s \<in> set (aligned_returns to_numeric years D (to_indices years D) column_text). s = ''''"
proof -
  have "(case snd p of None \<Rightarrow> ''''
         | Some j \<Rightarrow> annualized_cell years (D ! fst p) (D ! j)
                    (to_numeric (strip_commas (column_text ! fst p)))
                    (to_numeric (strip_commas (column_text ! j)))) = ''''"
    if "p \<in> set (enumerate 0 (to_indices years D))" for p
  proof -
    from that have "fst p < length column_text"
      using assms(2) by (auto simp: in_set_enumerate_eq length_to_indices)
    then have "to_numeric (strip_commas (column_text ! fst p)) = NaN"
      using assms(1) by simp
    then show ?thesis by (cases "snd p") simp_all
  qed
  then show ?thesis by (auto simp: aligned_returns_def)
qed

lemma set_boolean_mask: "set (boolean_mask keep xs) \<subseteq> set xs"
  by (auto simp: boolean_mask_def dest: set_zip_rightD)

text \<open>
  Claim C7. When the \<open>Date\<close> column is present and parses, a column whose cells are all
  unparseable does not abort the computation: the call returns a result in which that
  column is present and all-empty, and every other part of the result is what it is for
  any table that differs only in the text of that column.
\<close>

theorem unparseable_column_recovered:
  assumes date: "''Date'' \<in> set (columns df)"
    and stamps: "those (map (\<lambda>row. to_datetime_cell to_datetime (fst row)) (rows df)) = Some stamps"
    and c: "c \<in> set (columns df)" "c \<noteq> ''Date''"
    and nan: "\<forall>row \<in> set (rows df). to_numeric (strip_commas (snd row c)) = NaN"
  shows "\<exists>out. calculate_returns_optimized to_datetime to_numeric df years = Inr out \<and>
           (\<exists>col. map_of (result_df out) (return_header c years) = Some col \<and>
                  (\<forall>s \<in> set col. s = '''')) \<and>
           (\<forall>df'. columns df' = columns df \<and> map fst (rows df') = map fst (rows df) \<and>
                  (\<forall>c'. c' \<noteq> c \<longrightarrow>
                     map (\<lambda>row. snd row c') (rows df') = map (\<lambda>row. snd row c') (rows df)) \<longrightarrow>
              (\<exists>out'. calculate_returns_optimized to_datetime to_numeric df' years = Inr out' \<and>
                 AList.delete (return_header c years) (result_df out') =
                 AList.delete (return_header c years) (result_df out) \<and>
                 removed_rows out' = removed_rows out))"
proof -
  let ?R = "sort_values_Date (zip stamps (map snd (rows df)))"
  let ?D = "sort stamps"
  let ?valid = "matched_rows years ?D"
  let ?U = "unfiltered_frame to_numeric (columns df) ?R years"
  let ?k = "return_header c years"
  note closed = calculate_returns_closed [OF date stamps, of to_numeric years]
  then obtain out where out: "calculate_returns_optimized to_datetime to_numeric df years = Inr out"
    by blast
  have res: "result_df out = map (\<lambda>(name, col). (name, boolean_mask ?valid col)) ?U"
    and rem: "removed_rows out = (if list_all id ?valid then None
             else Some (length (rows df) - length (filter id ?valid)))"
    using out closed by auto
  have len: "length stamps = length (rows df)" using to_datetime_converted(3) [OF stamps] .
  then have D: "map fst ?R = ?D" by (simp add: sorted_dates_sort_values)
  \<comment> \<open>the column is present and empty\<close>
  let ?text = "map (\<lambda>row. snd row c) ?R"
  let ?col = "aligned_returns to_numeric years ?D (to_indices years ?D) ?text"
  have "set ?R \<subseteq> set (zip stamps (map snd (rows df)))"
    by (simp add: sort_values_Date_def)
  then have "\<forall>row \<in> set ?R. \<exists>row' \<in> set (rows df). snd row = snd row'"
    by (auto dest!: subsetD set_zip_rightD)
  then have "\<forall>row \<in> set ?R. to_numeric (strip_commas (snd row c)) = NaN"
    using nan by metis
  then have "\<forall>s \<in> set ?text. to_numeric (strip_commas s) = NaN"
    by simp
  moreover have "length ?text = length ?D" using len by simp
  ultimately have empty: "\<forall>s \<in> set ?col. s = ''''"
    by (rule aligned_returns_all_NaN)
  have "map_of ?U ?k = Some ?col"
    using unfiltered_frame_column [OF c, of to_numeric ?R years] by (simp add: D)
  then have lk: "map_of (result_df out) ?k = Some (boolean_mask ?valid ?col)"
    unfolding res map_of_map by simp
  have "\<forall>s \<in> set (boolean_mask ?valid ?col). s = ''''"
    using empty set_boolean_mask [of ?valid ?col] by blast
  with lk have part2: "\<exists>col. map_of (result_df out) ?k = Some col \<and> (\<forall>s \<in> set col. s = '''')"
    by blast
  \<comment> \<open>the rest of the result does not depend on the column\<close>
  have part3: "\<exists>out'. calculate_returns_optimized to_datetime to_numeric df' years = Inr out' \<and>
      AList.delete ?k (result_df out') = AList.delete ?k (result_df out) \<and>
      removed_rows out' = removed_rows out"
    if agree: "columns df' = columns df \<and> map fst (rows df') = map fst (rows df) \<and>
       (\<forall>c'. c' \<noteq> c \<longrightarrow>
          map (\<lambda>row. snd row c') (rows df') = map (\<lambda>row. snd row c') (rows df))" for df'
  proof -
    have date': "''Date'' \<in> set (columns df')" using agree date by simp
    have "map (\<lambda>row. to_datetime_cell to_datetime (fst row)) (rows df') =
          map (to_datetime_cell to_datetime) (map fst (rows df'))" by simp
    also have "\<dots> = map (\<lambda>row. to_datetime_cell to_datetime (fst row)) (rows df)"
      using agree by simp
    finally have stamps':
      "those (map (\<lambda>row. to_datetime_cell to_datetime (fst row)) (rows df')) = Some stamps"
      using stamps by simp
    have len': "length (rows df') = length (rows df)"
      using agree by (metis length_map)
    note closed' = calculate_returns_closed [OF date' stamps', of to_numeric years]
    then obtain out' where
      out': "calculate_returns_optimized to_datetime to_numeric df' years = Inr out'"
      by blast
    let ?R' = "sort_values_Date (zip stamps (map snd (rows df')))"
    let ?U' = "unfiltered_frame to_numeric (columns df') ?R' years"
    have res': "result_df out' = map (\<lambda>(name, col). (name, boolean_mask ?valid col)) ?U'"
      and rem': "removed_rows out' = (if list_all id ?valid then None
             else Some (length (rows df') - length (filter id ?valid)))"
      using out' closed' by auto
    have cells: "\<forall>c'. c' \<noteq> c \<longrightarrow>
        map (\<lambda>cell. cell c') (map snd (rows df')) = map (\<lambda>cell. cell c') (map snd (rows df))"
      using agree by (simp add: comp_def)
    have "AList.delete ?k ?U' = AList.delete ?k ?U"
      using unfiltered_frame_delete_cong [OF _ _ cells, of stamps years to_numeric "columns df"]
        len len' agree by simp
    then have "AList.delete ?k (result_df out') = AList.delete ?k (result_df out)"
      unfolding res res' delete_map_values by simp
    moreover have "removed_rows out' = removed_rows out"
      using rem rem' len' by simp
    ultimately show ?thesis using out' by blast
  qed
  show ?thesis using out part2 part3 by blast
qed

section \<open>Worked tables\<close>

lemma scenario_A_stamps:
  "''Date'' \<in> set (columns scenario_A)"
  "those (map (\<lambda>row. to_datetime_cell no_text_dates (fst row)) (rows scenario_A)) =
     Some [(2020, 1, 1, 0), (2021, 1, 1, 0), (2022, 1, 1, 0)]"
  by (simp_all add: scenario_A_def)

lemma scenario_note_stamps:
  "''Date'' \<in> set (columns scenario_note)"
  "those (map (\<lambda>row. to_datetime_cell no_text_dates (fst row)) (rows scenario_note)) =
     Some [(2020, 1, 1, 0), (2021, 1, 1, 0), (2022, 1, 1, 0)]"
  by (simp_all add: scenario_note_def)

theorem row_drop_consistency_witness:
  "\<exists>out. calculate_returns_optimized no_text_dates to_numeric_digits scenario_A 1 = Inr out \<and>
     (\<exists>from_col to_col.
        map_of (result_df out) ''From'' = Some from_col \<and>
        map_of (result_df out) (to_header 1) = Some to_col \<and>
        (\<forall>s \<in> set to_col. s \<noteq> '''') \<and>
        (\<forall>k. removed_rows out = Some k \<longrightarrow> k = length (rows scenario_A) - length from_col))"
proof -
  obtain out where
    out: "calculate_returns_optimized no_text_dates to_numeric_digits scenario_A 1 = Inr out"
    using calculate_returns_succeeds [OF scenario_A_stamps, where to_numeric = to_numeric_digits
        and years = 1]
    by (elim exE)
  from row_drop_consistency [OF out] obtain from_col to_col where
    "map_of (result_df out) ''From'' = Some from_col"
    "map_of (result_df out) (to_header 1) = Some to_col"
    "\<forall>s \<in> set to_col. s \<noteq> ''''"
    "\<forall>k. removed_rows out = Some k \<longrightarrow> k = length (rows scenario_A) - length from_col"
    by (elim exE conjE)
  with out show ?thesis by (intro exI conjI)
qed

theorem unparseable_column_recovered_witness:
  "\<exists>out out'.
     calculate_returns_optimized no_text_dates to_numeric_digits scenario_note 1 = Inr out \<and>
     (\<exists>col. map_of (result_df out) (return_header ''Note'' 1) = Some col \<and>
            (\<forall>s \<in> set col. s = '''')) \<and>
     calculate_returns_optimized no_text_dates to_numeric_digits scenario_note_filled 1 = Inr out' \<and>
     AList.delete (return_header ''Note'' 1) (result_df out') =
     AList.delete (return_header ''Note'' 1) (result_df out) \<and>
     removed_rows out' = removed_rows out"
proof -
  have c: "''Note'' \<in> set (columns scenario_note)" "''Note'' \<noteq> ''Date''"
    by (simp_all add: scenario_note_def)
  have nan: "\<forall>row \<in> set (rows scenario_note).
      to_numeric_digits (strip_commas (snd row ''Note'')) = NaN"
    by (simp add: scenario_note_def to_numeric_digits_def strip_commas_def digit_of_def)
  have agree: "columns scenario_note_filled = columns scenario_note \<and>
      map fst (rows scenario_note_filled) = map fst (rows scenario_note) \<and>
      (\<forall>c'. c' \<noteq> ''Note'' \<longrightarrow>
         map (\<lambda>row. snd row c') (rows scenario_note_filled) =
         map (\<lambda>row. snd row c') (rows scenario_note))"
    by (simp add: scenario_note_def scenario_note_filled_def)
  from unparseable_column_recovered [OF scenario_note_stamps c nan, where years = 1]
  obtain out col where
    out: "calculate_returns_optimized no_text_dates to_numeric_digits scenario_note 1 = Inr out"
    and col: "map_of (result_df out) (return_header ''Note'' 1) = Some col"
      "\<forall>s \<in> set col. s = ''''"
    and rest: "\<forall>df'. columns df' = columns scenario_note \<and>
         map fst (rows df') = map fst (rows scenario_note) \<and>
         (\<forall>c'. c' \<noteq> ''Note'' \<longrightarrow>
            map (\<lambda>row. snd row c') (rows df') = map (\<lambda>row. snd row c') (rows scenario_note)) \<longrightarrow>
         (\<exists>out'. calculate_returns_optimized no_text_dates to_numeric_digits df' 1 = Inr out' \<and>
            AList.delete (return_header ''Note'' 1) (result_df out') =
            AList.delete (return_header ''Note'' 1) (result_df out) \<and>
            removed_rows out' = removed_rows out)"
    by (elim exE conjE)
  from rest [rule_format, OF agree] obtain out' where
    "calculate_returns_optimized no_text_dates to_numeric_digits scenario_note_filled 1 = Inr out'"
    "AList.delete (return_header ''Note'' 1) (result_df out') =
     AList.delete (return_header ''Note'' 1) (result_df out)"
    "removed_rows out' = removed_rows out"
    by (elim exE conjE)
  with out col show ?thesis by (intro exI conjI)
qed

section \<open>Bounds for the annualisation of Scenario A\<close>

lemma power_one_plus_upper:
  fixes a :: real
  assumes a: "0 \<le> a" and n: "real n * a < 1"
  shows "(1 + a) ^ n \<le> 1 / (1 - real n * a)"
proof -
  have "(1 + a) ^ n * (1 - real n * a) \<le> 1"
    using n
  proof (induction n)
    case 0
    then show ?case by simp
  next
    case (Suc n)
    have na: "real n * a < 1" using Suc.prems a by (simp add: algebra_simps)
    have ih: "(1 + a) ^ n * (1 - real n * a) \<le> 1" using Suc.IH na by simp
    have "(1 + a) * (1 - real (Suc n) * a) \<le> 1 - real n * a"
    proof -
      have "(1 + a) * (1 - real (Suc n) * a) = 1 - real n * a - real (Suc n) * a * a"
        by (simp add: algebra_simps)
      moreover have "0 \<le> real (Suc n) * a * a" using a by simp
      ultimately show ?thesis by linarith
    qed
    then have "(1 + a) ^ n * ((1 + a) * (1 - real (Suc n) * a)) \<le> (1 + a) ^ n * (1 - real n * a)"
      using a by (intro mult_left_mono) simp_all
    then have "(1 + a) ^ n * ((1 + a) * (1 - real (Suc n) * a)) \<le> 1" using ih by linarith
    moreover have "(1 + a) ^ Suc n * (1 - real (Suc n) * a) =
        (1 + a) ^ n * ((1 + a) * (1 - real (Suc n) * a))"
      by (simp only: power_Suc mult.assoc mult.left_commute)
    ultimately show ?case by (simp only:)
  qed
  moreover have "0 < 1 - real n * a" using n by simp
  ultimately show ?thesis by (simp add: pos_le_divide_eq)
qed

lemma powr_unit_fraction_power:
  fixes x :: real
  assumes "0 < x" "0 < n"
  shows "(x powr (1 / real n)) ^ n = x"
proof -
  have "(x powr (1 / real n)) ^ n = (x powr (1 / real n)) powr real n"
    using assms by (simp add: powr_realpow)
  also have "\<dots> = x powr 1" using assms by (simp add: powr_powr)
  finally show ?thesis using assms by simp
qed

lemma powr_unit_fraction_bounds:
  fixes x lo hi :: real
  assumes x: "0 < x" and n: "0 < n"
    and lo: "0 \<le> lo" "lo ^ n < x" and hi: "0 \<le> hi" "x < hi ^ n"
  shows "lo < x powr (1 / real n)" "x powr (1 / real n) < hi"
proof -
  let ?w = "x powr (1 / real n)"
  have w: "?w ^ n = x" using x n by (rule powr_unit_fraction_power)
  have "lo ^ n < ?w ^ n" using lo w by simp
  then show "lo < ?w" by (rule power_less_imp_less_base) simp
  have "?w ^ n < hi ^ n" using hi w by simp
  then show "?w < hi" using hi(1) by (rule power_less_imp_less_base)
qed

lemma root_488_bounds:
  "1.000137 < (11 / 10 :: real) powr (1 / real 488)"
  "(11 / 10 :: real) powr (1 / real 488) < 1.000227"
proof -
  have "(1 + 0.000137 :: real) ^ 488 \<le> 1 / (1 - real 488 * 0.000137)"
    by (rule power_one_plus_upper) simp_all
  also have "\<dots> < 11 / 10" by simp
  finally have lo: "(1.000137 :: real) ^ 488 < 11 / 10" by simp
  have "1 + real 488 * 0.000227 \<le> (1 + 0.000227 :: real) ^ 488"
    by (rule Bernoulli_inequality) simp
  moreover have "(11 / 10 :: real) < 1 + real 488 * 0.000227" by simp
  ultimately have hi: "(11 / 10 :: real) < 1.000227 ^ 488" by simp
  show "1.000137 < (11 / 10 :: real) powr (1 / real 488)"
    "(11 / 10 :: real) powr (1 / real 488) < 1.000227"
    using powr_unit_fraction_bounds [of "11 / 10" 488 "1.000137" "1.000227"] lo hi by simp_all
qed

lemma root_1460_bounds:
  "1.000046 < (11 / 10 :: real) powr (1 / real 1460)"
  "(11 / 10 :: real) powr (1 / real 1460) < 1.000136"
proof -
  have "(1 + 0.000046 :: real) ^ 1460 \<le> 1 / (1 - real 1460 * 0.000046)"
    by (rule power_one_plus_upper) simp_all
  also have "\<dots> < 11 / 10" by simp
  finally have lo: "(1.000046 :: real) ^ 1460 < 11 / 10" by simp
  have "1 + real 1460 * 0.000136 \<le> (1 + 0.000136 :: real) ^ 1460"
    by (rule Bernoulli_inequality) simp
  moreover have "(11 / 10 :: real) < 1 + real 1460 * 0.000136" by simp
  ultimately have hi: "(11 / 10 :: real) < 1.000136 ^ 1460" by simp
  show "1.000046 < (11 / 10 :: real) powr (1 / real 1460)"
    "(11 / 10 :: real) powr (1 / real 1460) < 1.000136"
    using powr_unit_fraction_bounds [of "11 / 10" 1460 "1.000046" "1.000136"] lo hi by simp_all
qed

lemma growth_366_days:
  "1.09975 < (11 / 10 :: real) powr (1461 / 1464)"
  "(11 / 10 :: real) powr (1461 / 1464) < 1.09985"
proof -
  let ?w = "(11 / 10 :: real) powr (1 / real 488)"
  have "(11 / 10 :: real) powr (1461 / 1464) = (11 / 10) powr (1 - 1 / real 488)" by simp
  also have "\<dots> = (11 / 10) powr 1 / ?w" by (rule powr_diff)
  finally have eq: "(11 / 10 :: real) powr (1461 / 1464) = (11 / 10) / ?w" by simp
  have w: "1.000137 < ?w" "?w < 1.000227" by (rule root_488_bounds)+
  then have pos: "0 < ?w" by simp
  have "1.09975 * ?w < 11 / 10" using w by simp
  then show "1.09975 < (11 / 10 :: real) powr (1461 / 1464)"
    unfolding eq using pos by (simp add: pos_less_divide_eq)
  have "11 / 10 < 1.09985 * ?w" using w by simp
  then show "(11 / 10 :: real) powr (1461 / 1464) < 1.09985"
    unfolding eq using pos by (simp add: pos_divide_less_eq)
qed

lemma growth_365_days:
  "1.10005 < (11 / 10 :: real) powr (1461 / 1460)"
  "(11 / 10 :: real) powr (1461 / 1460) < 1.10015"
proof -
  let ?w = "(11 / 10 :: real) powr (1 / real 1460)"
  have "(11 / 10 :: real) powr (1461 / 1460) = (11 / 10) powr (1 + 1 / real 1460)" by simp
  also have "\<dots> = (11 / 10) powr 1 * ?w" by (rule powr_add)
  finally have eq: "(11 / 10 :: real) powr (1461 / 1460) = (11 / 10) * ?w" by simp
  have w: "1.000046 < ?w" "?w < 1.000136" by (rule root_1460_bounds)+
  show "1.10005 < (11 / 10 :: real) powr (1461 / 1460)"
    unfolding eq using w by simp
  show "(11 / 10 :: real) powr (1461 / 1460) < 1.10015"
    unfolding eq using w by simp
qed

section \<open>Scenario A\<close>

lemma round_half_even_between:
  assumes "real_of_int k - 1 / 2 < x" "x < real_of_int k + 1 / 2"
  shows "round_half_even x = k"
proof -
  have "\<lfloor>x\<rfloor> = k - 1 \<or> \<lfloor>x\<rfloor> = k" using assms by linarith
  then show ?thesis
  proof
    assume f: "\<lfloor>x\<rfloor> = k - 1"
    then have "1 / 2 < x - of_int \<lfloor>x\<rfloor>" using assms by simp
    then show ?thesis using f by (simp add: round_half_even_def Let_def)
  next
    assume f: "\<lfloor>x\<rfloor> = k"
    then have "x - of_int \<lfloor>x\<rfloor> < 1 / 2" using assms by simp
    then show ?thesis using f by (simp add: round_half_even_def Let_def)
  qed
qed

lemma format_2f_between:
  assumes "0 \<le> x" "real k - 1 / 2 < x * 100" "x * 100 < real k + 1 / 2"
  shows "format_2f x = show_nat (k div 100) @ ''.'' @ zero_pad 2 (show_nat (k mod 100))"
proof -
  have "round_half_even (\<bar>x\<bar> * 100) = int k"
    using assms by (intro round_half_even_between) simp_all
  then show ?thesis using assms(1) by (simp add: format_2f_def)
qed

lemma show_nat_eval:
  "show_nat 1 = ''1''" "show_nat (Suc 0) = ''1''" "show_nat 9 = ''9''" "show_nat 10 = ''10''" "show_nat 98 = ''98''"
  "show_nat 2020 = ''2020''" "show_nat 2021 = ''2021''" "show_nat 2022 = ''2022''"
  by (simp_all add: show_nat.simps digit_char_def)

lemma cell_2020:
  "annualized_cell 1 (2020, 1, 1, 0) (2021, 1, 1, 0) (Val 100) (Val 110) = ''9.98%''"
proof -
  let ?p = "(11 / 10 :: real) powr (1461 / 1464)"
  have ar: "annualized_return (110 / 100 - 1) (real_of_int 366 / 365.25) = Val ((?p - 1) * 100)"
    by (simp add: annualized_return_def np_power_def)
  have p: "1.09975 < ?p" "?p < 1.09985" by (rule growth_366_days)+
  have "format_2f ((?p - 1) * 100) =
      show_nat (998 div 100) @ ''.'' @ zero_pad 2 (show_nat (998 mod 100))"
    using p by (intro format_2f_between) simp_all
  then have "format_2f ((?p - 1) * 100) = ''9.98''"
    by (simp add: show_nat_eval zero_pad_def)
  then have "format_pct (annualized_return (110 / 100 - 1) (real_of_int 366 / 365.25)) = ''9.98%''"
    unfolding ar by simp
  moreover have "annualized_cell 1 (2020, 1, 1, 0) (2021, 1, 1, 0) (Val 100) (Val 110) =
      format_pct (annualized_return (110 / 100 - 1) (real_of_int 366 / 365.25))"
    unfolding annualized_cell_def Let_def timedelta_days_eval by simp
  ultimately show ?thesis by simp
qed

lemma cell_2021:
  "annualized_cell 1 (2021, 1, 1, 0) (2022, 1, 1, 0) (Val 110) (Val 121) = ''10.01%''"
proof -
  let ?p = "(11 / 10 :: real) powr (1461 / 1460)"
  have ar: "annualized_return (121 / 110 - 1) (real_of_int 365 / 365.25) = Val ((?p - 1) * 100)"
    by (simp add: annualized_return_def np_power_def)
  have p: "1.10005 < ?p" "?p < 1.10015" by (rule growth_365_days)+
  have "format_2f ((?p - 1) * 100) =
      show_nat (1001 div 100) @ ''.'' @ zero_pad 2 (show_nat (1001 mod 100))"
    using p by (intro format_2f_between) simp_all
  then have "format_2f ((?p - 1) * 100) = ''10.01''"
    by (simp add: show_nat_eval zero_pad_def)
  then have "format_pct (annualized_return (121 / 110 - 1) (real_of_int 365 / 365.25)) = ''10.01%''"
    unfolding ar by simp
  moreover have "annualized_cell 1 (2021, 1, 1, 0) (2022, 1, 1, 0) (Val 110) (Val 121) =
      format_pct (annualized_return (121 / 110 - 1) (real_of_int 365 / 365.25))"
    unfolding annualized_cell_def Let_def timedelta_days_eval by simp
  ultimately show ?thesis by simp
qed

lemma scenario_A_sorted_rows:
  "sort_values_Date (zip [(2020, 1, 1, 0), (2021, 1, 1, 0), (2022, 1, 1, 0)]
      (map snd (rows scenario_A))) =
   [((2020, 1, 1, 0), (\<lambda>c. ''100'')), ((2021, 1, 1, 0), (\<lambda>c. ''110'')),
    ((2022, 1, 1, 0), (\<lambda>c. ''121''))]"
  by (simp add: scenario_A_def sort_values_Date_def)

lemma scenario_A_matched:
  "matched_rows 1 [(2020, 1, 1, 0), (2021, 1, 1, 0), (2022, 1, 1, 0)] = [True, True, False]"
  unfolding matched_rows_def to_indices_scenario_A by simp

lemma scenario_A_from:
  "map strftime_mdY [(2020, 1, 1, 0), (2021, 1, 1, 0), (2022, 1, 1, 0)] =
   [''01/01/2020'', ''01/01/2021'', ''01/01/2022'']"
  by (simp add: strftime_mdY_def zero_pad_def show_nat_eval)

lemma scenario_A_to:
  "aligned_to_dates [(2020, 1, 1, 0), (2021, 1, 1, 0), (2022, 1, 1, 0)]
     (to_indices 1 [(2020, 1, 1, 0), (2021, 1, 1, 0), (2022, 1, 1, 0)]) =
   [''01/01/2021'', ''01/01/2022'', '''']"
  unfolding to_indices_scenario_A
  by (simp add: aligned_to_dates_def strftime_mdY_def zero_pad_def show_nat_eval)

lemma scenario_A_returns:
  "aligned_returns to_numeric_digits 1 [(2020, 1, 1, 0), (2021, 1, 1, 0), (2022, 1, 1, 0)]
     (to_indices 1 [(2020, 1, 1, 0), (2021, 1, 1, 0), (2022, 1, 1, 0)])
     [''100'', ''110'', ''121''] =
   [''9.98%'', ''10.01%'', '''']"
  unfolding to_indices_scenario_A aligned_returns_def
  by (simp add: to_numeric_digits_eval cell_2020 [simplified] cell_2021 [simplified])

lemma scenario_A_headers:
  "to_header 1 = ''To (1Yr)''" "return_header ''Series'' 1 = '' Series (1Yr)''"
  by (simp_all add: to_header_def return_header_def show_nat_eval)

lemma scenario_A_unfiltered:
  "unfiltered_frame to_numeric_digits (columns scenario_A)
     [((2020, 1, 1, 0), (\<lambda>c. ''100'')), ((2021, 1, 1, 0), (\<lambda>c. ''110'')),
      ((2022, 1, 1, 0), (\<lambda>c. ''121''))] 1 =
   [(''From'', [''01/01/2020'', ''01/01/2021'', ''01/01/2022'']),
    (''To (1Yr)'', [''01/01/2021'', ''01/01/2022'', '''']),
    ('' Series (1Yr)'', [''9.98%'', ''10.01%'', ''''])]"
proof -
  have cols: "columns scenario_A = [''Date'', ''Series'']" by (simp add: scenario_A_def)
  have dates: "map fst [((2020, 1, 1, 0), (\<lambda>c. ''100'')), ((2021, 1, 1, 0), (\<lambda>c. ''110'')),
      ((2022, 1, 1, 0), (\<lambda>c :: string. ''121''))] =
      [(2020, 1, 1, 0), (2021, 1, 1, 0), (2022, 1, 1, 0 :: nat)]"
    by simp
  have cells: "map (\<lambda>row. snd row ''Series'')
      [((2020, 1, 1, 0), (\<lambda>c. ''100'')), ((2021, 1, 1, 0), (\<lambda>c. ''110'')),
       ((2022 :: nat, 1 :: nat, 1 :: nat, 0 :: nat), (\<lambda>c :: string. ''121''))] =
      [''100'', ''110'', ''121'']"
    by simp
  show ?thesis
    unfolding unfiltered_frame_def Let_def cols dates fold_simps
    unfolding cells scenario_A_from scenario_A_to scenario_A_returns scenario_A_headers
    by simp
qed

text \<open>
  Claim C3, amended. For Scenario A with \<open>years = 1\<close> the result has exactly two rows, from
  01/01/2020 to 01/01/2021 and from 01/01/2021 to 01/01/2022, and the row of 01/01/2022 is
  dropped; the return cells are \<open>9.98%\<close> and \<open>10.01%\<close>, not \<open>10.00%\<close>, because the growth of
  10 percent is annualised over 366 and 365 elapsed days divided by 365.25.
\<close>

theorem scenario_A_result:
  "calculate_returns_optimized no_text_dates to_numeric_digits scenario_A 1 =
     Inr \<lparr>df_after = scenario_A,
          result_df =
            [(''From'', [''01/01/2020'', ''01/01/2021'']),
             (''To (1Yr)'', [''01/01/2021'', ''01/01/2022'']),
             ('' Series (1Yr)'', [''9.98%'', ''10.01%''])],
          removed_rows = Some 1\<rparr>"
proof -
  have srt: "sort [(2020, 1, 1, 0), (2021, 1, 1, 0), (2022, 1, 1, 0 :: nat)] =
      [(2020 :: nat, 1 :: nat, 1 :: nat, 0), (2021, 1, 1, 0), (2022, 1, 1, 0)]"
    by simp
  have same: "scenario_A\<lparr>rows := map2 (\<lambda>t row. (Stamp t, snd row))
        [(2020, 1, 1, 0), (2021, 1, 1, 0), (2022, 1, 1, 0)] (rows scenario_A)\<rparr> = scenario_A"
    by (simp add: scenario_A_def)
  have len: "length (rows scenario_A) = 3" by (simp add: scenario_A_def)
  show ?thesis
    unfolding calculate_returns_closed [OF scenario_A_stamps] srt same scenario_A_sorted_rows
      scenario_A_matched scenario_A_unfiltered len
    by (simp add: boolean_mask_def)
qed

theorem scenario_A_counterexample:
  "calculate_returns_optimized no_text_dates to_numeric_digits scenario_A 1 \<noteq>
     Inr \<lparr>df_after = scenario_A,
          result_df =
            [(''From'', [''01/01/2020'', ''01/01/2021'']),
             (''To (1Yr)'', [''01/01/2021'', ''01/01/2022'']),
             ('' Series (1Yr)'', [''10.00%'', ''10.00%''])],
          removed_rows = Some 1\<rparr>"
proof -
  have srt: "sort [(2020, 1, 1, 0), (2021, 1, 1, 0), (2022, 1, 1, 0 :: nat)] =
      [(2020 :: nat, 1 :: nat, 1 :: nat, 0), (2021, 1, 1, 0), (2022, 1, 1, 0)]"
    by simp
  have same: "scenario_A\<lparr>rows := map2 (\<lambda>t row. (Stamp t, snd row))
        [(2020, 1, 1, 0), (2021, 1, 1, 0), (2022, 1, 1, 0)] (rows scenario_A)\<rparr> = scenario_A"
    by (simp add: scenario_A_def)
  have len: "length (rows scenario_A) = 3" by (simp add: scenario_A_def)
  show ?thesis
    unfolding calculate_returns_closed [OF scenario_A_stamps] srt same scenario_A_sorted_rows
      scenario_A_matched scenario_A_unfiltered len
    by (simp add: boolean_mask_def)
qed

end
